theory Spec2Isabelle
  imports Main "HOL-Library.Word" "HOL-Library.List_Lexorder"
begin

unbundle bit_operations_syntax

section \<open>Data model\<close>

text \<open>
  The codec of \<^verbatim>\<open>ext/keylib.c\<close> and the Key type of \<^verbatim>\<open>ext/key.c\<close>, as functions on
  lists of bytes. A \<^verbatim>\<open>uint8_t\<close> is an \<open>8 word\<close>, a \<^verbatim>\<open>uint64_t\<close> a \<open>64 word\<close>.
\<close>

type_synonym byte = "8 word"
type_synonym bytes = "byte list"

text \<open>
  Every error return of the code is a value. \<open>SystemError\<close> stands for a \<^verbatim>\<open>NULL\<close> return
  with no exception set (\<^verbatim>\<open>reader_getc\<close> failing inside \<^verbatim>\<open>read_plain_int\<close>),
  and \<open>OutOfBounds\<close> for a read or a pointer move past the end of the buffer, which C
  leaves undefined.
\<close>

datatype error = ValueError | TypeError | IndexError | OverflowError | SystemError
  | OutOfBounds

text \<open>
  \<^verbatim>\<open>enum ElementKind\<close> and the constants \<^verbatim>\<open>UTCOFFSET_SHIFT\<close> and \<^verbatim>\<open>UTCOFFSET_DIV\<close> are
  declared in \<^verbatim>\<open>acid.h\<close>, which is not part of the sources at hand: the ten tag bytes and
  the two constants are a parameter of every function that uses them.
\<close>

record kinds =
  KIND_NULL :: byte
  KIND_NEG_INTEGER :: byte
  KIND_INTEGER :: byte
  KIND_NEG_TIME :: byte
  KIND_TIME :: byte
  KIND_BOOL :: byte
  KIND_BLOB :: byte
  KIND_TEXT :: byte
  KIND_UUID :: byte
  KIND_SEP :: byte
  UTCOFFSET_SHIFT :: int
  UTCOFFSET_DIV :: int

definition kind_list :: "kinds \<Rightarrow> byte list" where
  "kind_list K = [KIND_NULL K, KIND_NEG_INTEGER K, KIND_INTEGER K, KIND_NEG_TIME K,
     KIND_TIME K, KIND_BOOL K, KIND_BLOB K, KIND_TEXT K, KIND_UUID K, KIND_SEP K]"

text \<open>
  What the code and the wire format need of the tags: they are the labels of one
  \<^verbatim>\<open>switch\<close> (so pairwise different), a tag of 0 means "write no tag" to \<^verbatim>\<open>write_int\<close> and
  \<^verbatim>\<open>write_str\<close> (so none is 0), and a tag ends a string payload (so all are below 0x80).
\<close>

definition kinds_ok :: "kinds \<Rightarrow> bool" where
  "kinds_ok K = (distinct (kind_list K) \<and> list_all (\<lambda>k. k \<noteq> 0 \<and> k < 0x80) (kind_list K))"

text \<open>
  Modelled from the spec: the values of \<^verbatim>\<open>enum ElementKind\<close> and of the two UTCOFFSET
  constants (\<^verbatim>\<open>acid.h\<close> is missing). The spec fixes INTEGER = 0x15, the order NULL <
  NEG_INTEGER < INTEGER < NEG_TIME < TIME < BOOL < BLOB < TEXT < UUID, SEP below them all,
  every tag below 0x80, and offset bits that fit in 0..127; the other values are samples
  within these bounds (a shift of 64 and steps of 15 minutes for the offset). They are
  used for concrete inputs only.
\<close>

definition spec_kinds :: kinds where
  "spec_kinds = \<lparr> KIND_NULL = 15, KIND_NEG_INTEGER = 20, KIND_INTEGER = 21,
     KIND_NEG_TIME = 24, KIND_TIME = 25, KIND_BOOL = 30, KIND_BLOB = 40, KIND_TEXT = 50,
     KIND_UUID = 90, KIND_SEP = 10, UTCOFFSET_SHIFT = 64, UTCOFFSET_DIV = 900 \<rparr>"

text \<open>
  A \<^verbatim>\<open>datetime.datetime\<close>, as \<^verbatim>\<open>write_time\<close> reads it: the seconds \<^verbatim>\<open>timegm\<close> computes
  from its fields year to second (the wall clock, read as UTC), its microsecond, and the
  result of \<^verbatim>\<open>utcoffset()\<close> in seconds (\<^verbatim>\<open>days * 86400 + seconds\<close> of the timedelta), \<open>None\<close>
  for a naive datetime.
\<close>

record datetime =
  dt_timegm :: int
  dt_microsecond :: nat
  dt_utcoffset :: "int option"

text \<open>
  The elements of a tuple. An integer (\<^verbatim>\<open>PyInt\<close> or \<^verbatim>\<open>PyLong\<close>) is its value; a UUID is
  the byte string \<^verbatim>\<open>uuid.UUID.get_bytes()\<close> returns; a unicode string is of a type \<open>'u\<close>
  left open. \<open>Unsupported\<close> is an object of any other type.
\<close>

datatype 'u element = Null | Integer int | Bool bool | Blob bytes | Text 'u
  | DateTime datetime | UUID bytes | Unsupported

text \<open>
  What the code calls outside the sources at hand: CPython's UTF-8 codec; the C library's
  time zone, as the offset \<^verbatim>\<open>timegm(localtime(ts)) - mktime(localtime(ts))\<close> that
  \<^verbatim>\<open>get_utcoffset_secs\<close> computes for a naive datetime; and the end of \<^verbatim>\<open>read_time\<close>,
  which goes through floating point: the datetime that \<^verbatim>\<open>datetime.fromtimestamp\<close> builds
  from the double \<^verbatim>\<open>(double) (v / 1000) + ((double) (v % 1000)) / 1000.0\<close>, negated for
  \<^verbatim>\<open>KIND_NEG_TIME\<close>, in the fixed-offset zone of \<^verbatim>\<open>offset_secs\<close> (\<open>None\<close> when it raises).
  Its arguments here are the flag "negated", \<open>v\<close> and \<^verbatim>\<open>offset_secs\<close>.
\<close>

record 'u host_api =
  PyUnicode_EncodeUTF8 :: "'u \<Rightarrow> bytes option"
  PyUnicode_DecodeUTF8 :: "bytes \<Rightarrow> 'u option"
  local_utcoffset :: "int \<Rightarrow> int"
  PyDateTime_FromTimestamp :: "bool \<Rightarrow> 64 word \<Rightarrow> int \<Rightarrow> datetime option"

definition utf8_ok :: "'u host_api \<Rightarrow> bool" where
  "utf8_ok P = (\<forall>u s. PyUnicode_EncodeUTF8 P u = Some s \<longrightarrow> PyUnicode_DecodeUTF8 P s = Some u)"

text \<open>The argument of \<^verbatim>\<open>pack\<close>: an element, a tuple, a Key (its bytes) or a list.\<close>

datatype 'u pyobject = PyElem "'u element" | PyTuple "'u element list" | PyKey bytes
  | PyList "'u pyobject list"

section \<open>Reader and writer\<close>

text \<open>
  A \<^verbatim>\<open>struct reader\<close> is the list of the bytes in \<^verbatim>\<open>[p, e)\<close>; a \<^verbatim>\<open>struct writer\<close> is
  the list of the bytes written so far (\<^verbatim>\<open>s[0..pos)\<close>). Allocation is taken to succeed, so
  \<^verbatim>\<open>writer_need\<close> always returns 1.
\<close>

definition reader_getc :: "bytes \<Rightarrow> (byte \<times> bytes) option" where
  "reader_getc rdr = (case rdr of [] \<Rightarrow> None | ch # rest \<Rightarrow> Some (ch, rest))"

definition reader_ensure :: "bytes \<Rightarrow> nat \<Rightarrow> bool" where
  "reader_ensure rdr n = (n \<le> length rdr)"

definition reader_getchar :: "bytes \<Rightarrow> error + (byte \<times> bytes)" where
  "reader_getchar rdr = (case rdr of [] \<Rightarrow> Inl OutOfBounds | ch # rest \<Rightarrow> Inr (ch, rest))"

definition writer_putchar :: "bytes \<Rightarrow> byte \<Rightarrow> bytes" where
  "writer_putchar wtr ch = wtr @ [ch]"

definition writer_putc :: "bytes \<Rightarrow> byte \<Rightarrow> bytes" where
  "writer_putc wtr ch = writer_putchar wtr ch"

definition writer_puts :: "bytes \<Rightarrow> bytes \<Rightarrow> bytes" where
  "writer_puts wtr s = wtr @ s"

section \<open>Varints\<close>

text \<open>
  One of the conditional \<^verbatim>\<open>writer_putchar(...); type++;\<close> steps of \<^verbatim>\<open>write_int\<close>, on
  the pair of the writer and the type byte.
\<close>

definition put_if :: "bool \<Rightarrow> byte \<Rightarrow> bytes \<times> byte \<Rightarrow> bytes \<times> byte" where
  "put_if c b s = (if c then (writer_putchar (fst s) b, snd s + 1) else s)"

text \<open>
  \<^verbatim>\<open>write_int\<close>. The arithmetic the C code does on \<^verbatim>\<open>int\<close> before it truncates to
  \<^verbatim>\<open>uint8_t\<close> is done on bytes (truncation commutes with \<open>+\<close> and \<open>XOR\<close>). The type byte
  is first written as 0 and patched at the end through \<^verbatim>\<open>typeptr\<close>.
\<close>

definition write_int :: "bytes \<Rightarrow> 64 word \<Rightarrow> byte \<Rightarrow> byte \<Rightarrow> bytes" where
  "write_int wtr0 v kind xr =
    (let wtr = (if kind \<noteq> 0 then writer_putc wtr0 kind else wtr0) in
     if v \<le> 240 then writer_putc wtr (ucast (ucast xr XOR v))
     else if v \<le> 2287 then
       (let v1 = v - 240;
            wtr = writer_putchar wtr (xr XOR (241 + ucast (drop_bit 8 v1)))
        in writer_putchar wtr (xr XOR ucast (v1 AND 0xff)))
     else if v \<le> 67823 then
       (let v1 = v - 2288;
            wtr = writer_putchar wtr (xr XOR 0xf9);
            wtr = writer_putchar wtr (xr XOR ucast (drop_bit 8 v1))
        in writer_putchar wtr (xr XOR ucast (v1 AND 0xff)))
     else
       (let typeptr = length wtr;
            s = (writer_putchar wtr 0, 0xfa);
            s = put_if (v > 0xffffffffffffff) (xr XOR ucast (drop_bit 56 v)) s;
            s = put_if (v > 0xffffffffffff) (xr XOR ucast (drop_bit 48 v)) s;
            s = put_if (v > 0xffffffffff) (xr XOR ucast (drop_bit 40 v)) s;
            s = put_if (v > 0xffffffff) (xr XOR ucast (drop_bit 32 v)) s;
            s = put_if (v > 0xffffff) (xr XOR ucast (drop_bit 24 v)) s;
            wtr = writer_putchar (fst s) (xr XOR ucast (drop_bit 16 v));
            wtr = writer_putchar wtr (xr XOR ucast (drop_bit 8 v));
            wtr = writer_putchar wtr (xr XOR ucast v)
        in wtr[typeptr := xr XOR snd s]))"

text \<open>\<^verbatim>\<open>py_pack_int\<close>: the prefix, then the bare varint.\<close>

definition py_pack_int :: "bytes \<Rightarrow> 64 word \<Rightarrow> bytes" where
  "py_pack_int prefix v = write_int (writer_puts [] prefix) v 0 0"

text \<open>
  One of the conditional reads of \<^verbatim>\<open>read_plain_int\<close>:
  \<^verbatim>\<open>v |= ((uint64_t) (xor ^ reader_getchar(rdr))) << n\<close>.
\<close>

definition get_if :: "bool \<Rightarrow> byte \<Rightarrow> nat \<Rightarrow> 64 word \<times> bytes \<Rightarrow> error + (64 word \<times> bytes)" where
  "get_if c xr n s =
    (if c then
       (case reader_getchar (snd s) of Inl e \<Rightarrow> Inl e
        | Inr (b, rdr) \<Rightarrow> Inr (fst s OR push_bit n (ucast (xr XOR b)), rdr))
     else Inr s)"

definition and_then :: "error + 'a \<Rightarrow> ('a \<Rightarrow> error + 'b) \<Rightarrow> error + 'b" where
  "and_then m f = (case m of Inl e \<Rightarrow> Inl e | Inr x \<Rightarrow> f x)"

definition read_plain_int :: "bytes \<Rightarrow> byte \<Rightarrow> error + (64 word \<times> bytes)" where
  "read_plain_int rdr0 xr =
    (case reader_getc rdr0 of None \<Rightarrow> Inl SystemError
     | Some (ch0, rdr) \<Rightarrow>
        (let ch = ch0 XOR xr in
         if ch \<le> 240 then Inr (ucast ch, rdr)
         else if ch \<le> 248 then
           (if reader_ensure rdr 1 then
              and_then (reader_getchar rdr) (\<lambda>(b, rdr).
                Inr (240 + 256 * (ucast ch - 241) + ucast (xr XOR b), rdr))
            else Inl ValueError)
         else if ch = 249 then
           (if reader_ensure rdr 2 then
              and_then (reader_getchar rdr) (\<lambda>(b1, rdr).
              and_then (reader_getchar rdr) (\<lambda>(b2, rdr).
                Inr (2288 + 256 * ucast (xr XOR b1) + ucast (xr XOR b2), rdr)))
            else Inl ValueError)
         else if reader_ensure rdr (8 - (255 - unat ch)) then
           and_then (get_if (ch \<ge> 255) xr 56 (0, rdr)) (\<lambda>s.
           and_then (get_if (ch \<ge> 254) xr 48 s) (\<lambda>s.
           and_then (get_if (ch \<ge> 253) xr 40 s) (\<lambda>s.
           and_then (get_if (ch \<ge> 252) xr 32 s) (\<lambda>s.
           and_then (get_if (ch \<ge> 251) xr 24 s) (\<lambda>s.
           and_then (get_if True xr 16 s) (\<lambda>s.
           and_then (get_if True xr 8 s) (\<lambda>s.
           get_if True xr 0 s)))))))
         else Inl ValueError))"

section \<open>Strings\<close>

text \<open>
  The loop of \<^verbatim>\<open>write_str\<close> over the input bytes, with the final
  \<^verbatim>\<open>if(shift > 1) writer_putchar(wtr, 0x80 | trailer)\<close> as its last step. The
  assignment \<^verbatim>\<open>trailer = (o << (7 - shift))\<close> truncates to \<^verbatim>\<open>uint8_t\<close>, as
  \<open>push_bit\<close> on a byte does.
\<close>

fun write_str_loop :: "nat \<Rightarrow> byte \<Rightarrow> bytes \<Rightarrow> bytes \<Rightarrow> bytes" where
  "write_str_loop shift trailer [] wtr =
     (if shift > 1 then writer_putchar wtr (0x80 OR trailer) else wtr)"
| "write_str_loop shift trailer (b # p) wtr =
     (let wtr = writer_putchar wtr (0x80 OR trailer OR drop_bit shift b) in
      if shift < 7 then write_str_loop (shift + 1) (push_bit (7 - shift) b) p wtr
      else write_str_loop 1 0 p (writer_putchar wtr (0x80 OR b)))"

definition write_str :: "bytes \<Rightarrow> bytes \<Rightarrow> byte \<Rightarrow> bytes" where
  "write_str wtr p kind =
     write_str_loop 1 0 p (if kind \<noteq> 0 then writer_putchar wtr kind else wtr)"

text \<open>
  The loop of \<^verbatim>\<open>read_str\<close>; it returns the decoded string and the reader. A byte below
  0x80 is put back (\<^verbatim>\<open>rdr->p--\<close>): the reader returned still holds it.
\<close>

fun read_str_loop :: "nat \<Rightarrow> byte \<Rightarrow> bytes \<Rightarrow> bytes \<Rightarrow> bytes \<times> bytes" where
  "read_str_loop shift lb [] wtr = (wtr, [])"
| "read_str_loop shift lb (cb # rdr) wtr =
     (if cb < 0x80 then (wtr, cb # rdr)
      else
        (let ch = push_bit shift lb OR drop_bit (7 - shift) (cb AND 0x7f);
             wtr = writer_putc wtr ch
         in if shift < 7 then read_str_loop (shift + 1) cb rdr wtr
            else (case rdr of [] \<Rightarrow> (wtr, [])
                  | lb1 # rdr1 \<Rightarrow>
                      if lb1 < 0x80 then (wtr, lb1 # rdr1)
                      else read_str_loop 1 lb1 rdr1 wtr)))"

definition read_str :: "bytes \<Rightarrow> bytes \<times> bytes" where
  "read_str rdr =
     (case reader_getc rdr of None \<Rightarrow> ([], rdr)
      | Some (lb, rdr1) \<Rightarrow> if lb < 0x80 then ([], rdr) else read_str_loop 1 lb rdr1 [])"

section \<open>Elements\<close>

text \<open>Division of C \<^verbatim>\<open>int\<close>s, which truncates towards zero.\<close>

definition c_div :: "int \<Rightarrow> int \<Rightarrow> int" where
  "c_div a b = sgn a * sgn b * (\<bar>a\<bar> div \<bar>b\<bar>)"

text \<open>
  \<^verbatim>\<open>get_utcoffset_secs\<close>: the offset of an aware datetime, the local zone's for a naive
  one. The call of \<^verbatim>\<open>utcoffset()\<close> is taken to return a timedelta or \<^verbatim>\<open>None\<close>.
\<close>

definition get_utcoffset_secs :: "'u host_api \<Rightarrow> datetime \<Rightarrow> int" where
  "get_utcoffset_secs P dt =
     (case dt_utcoffset dt of None \<Rightarrow> local_utcoffset P (dt_timegm dt) | Some offset \<Rightarrow> offset)"

text \<open>
  \<^verbatim>\<open>write_time\<close>, on \<^verbatim>\<open>int64_t\<close> as a 64-bit word (the shift and the negation of a
  negative value wrap). \<open>None\<close> is its return of -1 when the offset is -1, with nothing
  written. The \<^verbatim>\<open>assert\<close> on the offset bits is taken as compiled out, as \<^verbatim>\<open>NDEBUG\<close>
  has it in the build of an extension module.
\<close>

definition write_time :: "kinds \<Rightarrow> 'u host_api \<Rightarrow> bytes \<Rightarrow> datetime \<Rightarrow> bytes option" where
  "write_time K P wtr dt =
     (let ts = (word_of_int (dt_timegm dt) :: 64 word);
          offset_secs = get_utcoffset_secs P dt
      in if offset_secs = - 1 then None
         else
           (let ts = ts - word_of_int offset_secs;
                offset_bits = UTCOFFSET_SHIFT K + c_div offset_secs (UTCOFFSET_DIV K);
                ts = ts * 1000;
                ts = ts + of_nat (dt_microsecond dt div 1000);
                ts = push_bit 7 ts;
                ts = ts OR word_of_int offset_bits
            in if sint ts < 0 then Some (write_int wtr (- ts) (KIND_NEG_TIME K) 0xff)
               else Some (write_int wtr ts (KIND_TIME K) 0)))"

text \<open>
  \<^verbatim>\<open>write_element\<close>. Both integer branches (\<^verbatim>\<open>PyInt\<close>, a C \<^verbatim>\<open>long\<close>, and \<^verbatim>\<open>PyLong\<close>
  through \<^verbatim>\<open>PyLong_AsLongLong\<close>, which fails outside the 64-bit signed range) take the
  value as a signed 64-bit word and pass its negation, as a \<^verbatim>\<open>uint64_t\<close>, when it is
  negative. For a datetime the result of \<^verbatim>\<open>write_time\<close> is returned as it is: its -1 is
  not 0, so every caller goes on as after a success, with nothing written.
\<close>

definition write_element :: "kinds \<Rightarrow> 'u host_api \<Rightarrow> bytes \<Rightarrow> 'u element \<Rightarrow> error + bytes" where
  "write_element K P wtr arg =
    (case arg of
       Null \<Rightarrow> Inr (writer_putc wtr (KIND_NULL K))
     | Integer i \<Rightarrow>
         if - (2 ^ 63) \<le> i \<and> i < 2 ^ 63 then
           (let v = (word_of_int i :: 64 word) in
            if i < 0 then Inr (write_int wtr (- v) (KIND_NEG_INTEGER K) 0xff)
            else Inr (write_int wtr v (KIND_INTEGER K) 0))
         else Inl OverflowError
     | Blob s \<Rightarrow> Inr (write_str wtr s (KIND_BLOB K))
     | Text u \<Rightarrow>
         (case PyUnicode_EncodeUTF8 P u of None \<Rightarrow> Inl ValueError
          | Some utf8 \<Rightarrow> Inr (write_str wtr utf8 (KIND_TEXT K)))
     | Bool b \<Rightarrow> Inr (writer_putc (writer_putc wtr (KIND_BOOL K)) (if b then 1 else 0))
     | DateTime dt \<Rightarrow> (case write_time K P wtr dt of None \<Rightarrow> Inr wtr | Some wtr1 \<Rightarrow> Inr wtr1)
     | UUID ss \<Rightarrow> Inr (writer_puts (writer_putc wtr (KIND_UUID K)) ss)
     | Unsupported \<Rightarrow> Inl TypeError)"

fun write_tuple :: "kinds \<Rightarrow> 'u host_api \<Rightarrow> bytes \<Rightarrow> 'u element list \<Rightarrow> error + bytes" where
  "write_tuple K P wtr [] = Inr wtr"
| "write_tuple K P wtr (arg # tup) =
     (case write_element K P wtr arg of Inl e \<Rightarrow> Inl e | Inr wtr1 \<Rightarrow> write_tuple K P wtr1 tup)"

text \<open>
  The elements \<^verbatim>\<open>write_element\<close> encodes, timestamps aside: an integer in the signed
  64-bit range, a unicode string the UTF-8 codec accepts, a UUID (its \<^verbatim>\<open>get_bytes()\<close> are
  16 bytes), and every null, boolean and byte string.
\<close>

definition encodable :: "'u host_api \<Rightarrow> 'u element \<Rightarrow> bool" where
  "encodable P e =
     (case e of
        Null \<Rightarrow> True
      | Integer i \<Rightarrow> - (2 ^ 63) \<le> i \<and> i < 2 ^ 63
      | Bool b \<Rightarrow> True
      | Blob s \<Rightarrow> True
      | Text u \<Rightarrow> PyUnicode_EncodeUTF8 P u \<noteq> None
      | DateTime dt \<Rightarrow> False
      | UUID ss \<Rightarrow> length ss = 16
      | Unsupported \<Rightarrow> False)"

definition read_int :: "bytes \<Rightarrow> bool \<Rightarrow> byte \<Rightarrow> error + ('u element \<times> bytes)" where
  "read_int rdr negate xr =
     and_then (read_plain_int rdr xr) (\<lambda>(u64, rdr).
       Inr (Integer (if negate then - uint u64 else uint u64), rdr))"

definition read_uuid :: "bytes \<Rightarrow> error + ('u element \<times> bytes)" where
  "read_uuid rdr =
     (if reader_ensure rdr 16 then Inr (UUID (take 16 rdr), drop 16 rdr) else Inl ValueError)"

text \<open>
  \<^verbatim>\<open>read_time\<close>; \<open>neg\<close> is \<^verbatim>\<open>kind == KIND_NEG_TIME\<close>. The fixed-offset zone is taken to
  be built without failure.
\<close>

definition read_time :: "kinds \<Rightarrow> 'u host_api \<Rightarrow> bytes \<Rightarrow> bool \<Rightarrow> error + ('u element \<times> bytes)" where
  "read_time K P rdr neg =
     and_then (read_plain_int rdr (if neg then 0xff else 0)) (\<lambda>(v, rdr).
       let offset_secs = (uint (v AND 0x7f) - UTCOFFSET_SHIFT K) * UTCOFFSET_DIV K;
           v = drop_bit 7 v
       in case PyDateTime_FromTimestamp P neg v offset_secs of None \<Rightarrow> Inl ValueError
          | Some dt \<Rightarrow> Inr (DateTime dt, rdr))"

text \<open>\<^verbatim>\<open>read_element\<close>: the \<^verbatim>\<open>switch\<close> on the kind byte.\<close>

definition read_element :: "kinds \<Rightarrow> 'u host_api \<Rightarrow> bytes \<Rightarrow> error + ('u element \<times> bytes)" where
  "read_element K P rdr0 =
     and_then (reader_getchar rdr0) (\<lambda>(ch, rdr).
       if ch = KIND_NULL K then Inr (Null, rdr)
       else if ch = KIND_INTEGER K then read_int rdr False 0
       else if ch = KIND_NEG_INTEGER K then read_int rdr True 0xff
       else if ch = KIND_BOOL K then
         and_then (read_plain_int rdr 0) (\<lambda>(u64, rdr). Inr (Bool (u64 \<noteq> 0), rdr))
       else if ch = KIND_BLOB K then
         (case read_str rdr of (s, rdr) \<Rightarrow> Inr (Blob s, rdr))
       else if ch = KIND_TEXT K then
         (case read_str rdr of (tmp, rdr) \<Rightarrow>
            (case PyUnicode_DecodeUTF8 P tmp of None \<Rightarrow> Inl ValueError
             | Some u \<Rightarrow> Inr (Text u, rdr)))
       else if ch = KIND_NEG_TIME K \<or> ch = KIND_TIME K then
         read_time K P rdr (ch = KIND_NEG_TIME K)
       else if ch = KIND_UUID K then read_uuid rdr
       else Inl ValueError)"

section \<open>Tuples\<close>

text \<open>Every read moves the reader forward: the loops below end.\<close>

lemma get_if_length:
  "get_if c xr n s = Inr s' \<Longrightarrow> length (snd s') \<le> length (snd s)"
  by (auto simp: get_if_def reader_getchar_def split: if_splits list.splits sum.splits)

lemma read_plain_int_shrinks:
  "read_plain_int rdr xr = Inr (v, rdr') \<Longrightarrow> length rdr' < length rdr"
  unfolding read_plain_int_def reader_getc_def
  apply (cases rdr; simp add: Let_def and_then_def split: if_splits sum.splits prod.splits)
     apply (auto simp: reader_getchar_def split: list.splits dest!: get_if_length)
  done

lemma read_str_loop_length:
  "read_str_loop shift lb rdr wtr = (s, rdr') \<Longrightarrow> length rdr' \<le> length rdr"
proof (induction shift lb rdr wtr arbitrary: s rdr' rule: read_str_loop.induct)
  case (1 shift lb wtr)
  then show ?case by simp
next
  case (2 shift lb cb rdr wtr)
  show ?case
  proof (cases "cb < 0x80")
    case True
    with 2(3) show ?thesis by simp
  next
    case F: False
    define ch where "ch = push_bit shift lb OR drop_bit (7 - shift) (cb AND 0x7f)"
    define w where "w = writer_putc wtr ch"
    show ?thesis
    proof (cases "shift < 7")
      case True
      with F 2(3) have "read_str_loop (shift + 1) cb rdr w = (s, rdr')"
        by (simp add: Let_def ch_def w_def)
      from 2(1)[OF F ch_def w_def True this] show ?thesis by simp
    next
      case S: False
      show ?thesis
      proof (cases rdr)
        case Nil
        with F S 2(3) show ?thesis by (simp add: Let_def)
      next
        case (Cons lb1 rdr1)
        show ?thesis
        proof (cases "lb1 < 0x80")
          case True
          with F S Cons 2(3) show ?thesis by (auto simp add: Let_def)
        next
          case L: False
          with F S Cons 2(3) have "read_str_loop 1 lb1 rdr1 w = (s, rdr')"
            by (simp add: Let_def ch_def w_def)
          from 2(2)[OF F ch_def w_def S Cons L this] Cons show ?thesis by simp
        qed
      qed
    qed
  qed
qed

lemma read_str_length: "read_str rdr = (s, rdr') \<Longrightarrow> length rdr' \<le> length rdr"
  by (auto simp: read_str_def reader_getc_def split: list.splits if_splits dest: read_str_loop_length)

lemma read_element_shrinks:
  "read_element K P rdr = Inr (arg, rdr') \<Longrightarrow> length rdr' < length rdr"
  unfolding read_element_def reader_getchar_def
  by (cases rdr)
     (auto simp: and_then_def read_int_def read_uuid_def read_time_def reader_ensure_def Let_def
           split: if_splits sum.splits prod.splits option.splits
           dest: read_plain_int_shrinks read_str_length)

text \<open>
  \<^verbatim>\<open>unpack\<close>: elements until \<^verbatim>\<open>KIND_SEP\<close>, which is consumed, or the end of the
  input. The tuple built so far is the last argument.
\<close>

function unpack :: "kinds \<Rightarrow> 'u host_api \<Rightarrow> bytes \<Rightarrow> 'u element list
    \<Rightarrow> error + ('u element list \<times> bytes)" where
  "unpack K P [] tup = Inr (tup, [])"
| "unpack K P (c # rdr) tup =
     (if c = KIND_SEP K then Inr (tup, rdr)
      else (case read_element K P (c # rdr) of Inl e \<Rightarrow> Inl e
            | Inr (arg, rdr1) \<Rightarrow> unpack K P rdr1 (tup @ [arg])))"
  by pat_completeness auto
termination
  by (relation "measure (\<lambda>(K, P, rdr, tup). length rdr)")
     (auto dest: read_element_shrinks)

text \<open>
  \<^verbatim>\<open>memcmp\<close> on the first \<open>n\<close> bytes, as the sign of its result. Every call has \<open>n\<close> at
  most the length of both arguments.
\<close>

fun memcmp :: "bytes \<Rightarrow> bytes \<Rightarrow> nat \<Rightarrow> int" where
  "memcmp (a # as) (b # bs) (Suc n) =
     (if a < b then - 1 else if b < a then 1 else memcmp as bs n)"
| "memcmp _ _ _ = 0"

text \<open>
  The prefix test shared by \<^verbatim>\<open>py_unpack\<close>, \<^verbatim>\<open>py_unpacks\<close> and \<^verbatim>\<open>key_from_raw\<close>:
  \<^verbatim>\<open>s_len < prefix_len || memcmp(prefix, s, prefix_len)\<close>.
\<close>

definition prefix_mismatch :: "bytes \<Rightarrow> bytes \<Rightarrow> bool" where
  "prefix_mismatch prefix s = (length s < length prefix \<or> memcmp prefix s (length prefix) \<noteq> 0)"

text \<open>\<^verbatim>\<open>py_unpack\<close>; \<open>None\<close> is Python's \<^verbatim>\<open>None\<close>, returned when the prefix does not match.\<close>

definition py_unpack :: "kinds \<Rightarrow> 'u host_api \<Rightarrow> bytes \<Rightarrow> bytes
    \<Rightarrow> error + 'u element list option" where
  "py_unpack K P prefix s =
     (if prefix_mismatch prefix s then Inr None
      else (case unpack K P (drop (length prefix) s) [] of Inl e \<Rightarrow> Inl e
            | Inr (tup, rdr) \<Rightarrow> Inr (Some tup)))"

lemma unpack_shrinks:
  "unpack K P rdr tup = Inr (tup', rdr') \<Longrightarrow> rdr \<noteq> [] \<Longrightarrow> length rdr' < length rdr"
proof (induction K P rdr tup arbitrary: tup' rdr' rule: unpack.induct)
  case (1 K P tup)
  then show ?case by simp
next
  case (2 K P c rdr tup)
  show ?case
  proof (cases "c = KIND_SEP K")
    case True
    with 2(2) show ?thesis by simp
  next
    case False
    with 2(2) obtain arg rdr1 where r: "read_element K P (c # rdr) = Inr (arg, rdr1)"
      and u: "unpack K P rdr1 (tup @ [arg]) = Inr (tup', rdr')"
      by (auto split: sum.splits)
    from read_element_shrinks[OF r] have l: "length rdr1 < length (c # rdr)" .
    show ?thesis
    proof (cases rdr1)
      case Nil
      with u l show ?thesis by simp
    next
      case (Cons a list)
      with 2(1)[OF False r refl u] l show ?thesis by simp
    qed
  qed
qed

text \<open>The loop of \<^verbatim>\<open>py_unpacks\<close>: one \<^verbatim>\<open>unpack\<close> after the other until the input ends.\<close>

function unpacks_loop :: "kinds \<Rightarrow> 'u host_api \<Rightarrow> bytes \<Rightarrow> 'u element list list
    \<Rightarrow> error + 'u element list list" where
  "unpacks_loop K P rdr tups =
     (if rdr \<noteq> [] then
        (case unpack K P rdr [] of Inl e \<Rightarrow> Inl e
         | Inr (tup, rdr1) \<Rightarrow> unpacks_loop K P rdr1 (tups @ [tup]))
      else Inr tups)"
  by pat_completeness auto
termination
  by (relation "measure (\<lambda>(K, P, rdr, tups). length rdr)")
     (auto dest: unpack_shrinks)

declare unpacks_loop.simps [simp del]

definition py_unpacks :: "kinds \<Rightarrow> 'u host_api \<Rightarrow> bytes \<Rightarrow> bytes
    \<Rightarrow> error + 'u element list list option" where
  "py_unpacks K P prefix s =
     (if prefix_mismatch prefix s then Inr None
      else (case unpacks_loop K P (drop (length prefix) s) [] of Inl e \<Rightarrow> Inl e
            | Inr tups \<Rightarrow> Inr (Some tups)))"

text \<open>
  \<^verbatim>\<open>py_packs\<close>. One item of its list loop, or its whole argument when that is no list:
  a tuple, a Key, or anything else as a single element (a list there is an unsupported
  type to \<^verbatim>\<open>write_element\<close>).
\<close>

definition write_item :: "kinds \<Rightarrow> 'u host_api \<Rightarrow> bytes \<Rightarrow> 'u pyobject \<Rightarrow> error + bytes" where
  "write_item K P wtr elem =
     (case elem of
        PyTuple tup \<Rightarrow> write_tuple K P wtr tup
      | PyKey p \<Rightarrow> Inr (writer_puts wtr p)
      | PyElem arg \<Rightarrow> write_element K P wtr arg
      | PyList l \<Rightarrow> write_element K P wtr Unsupported)"

fun packs_loop :: "kinds \<Rightarrow> 'u host_api \<Rightarrow> bytes \<Rightarrow> nat \<Rightarrow> 'u pyobject list \<Rightarrow> error + bytes" where
  "packs_loop K P wtr i [] = Inr wtr"
| "packs_loop K P wtr i (elem # tups) =
     (let wtr = (if i \<noteq> 0 then writer_putc wtr (KIND_SEP K) else wtr) in
      case write_item K P wtr elem of Inl e \<Rightarrow> Inl e
      | Inr wtr1 \<Rightarrow> packs_loop K P wtr1 (i + 1) tups)"

definition py_packs :: "kinds \<Rightarrow> 'u host_api \<Rightarrow> bytes \<Rightarrow> 'u pyobject \<Rightarrow> error + bytes" where
  "py_packs K P prefix tups =
     (let wtr = writer_puts [] prefix in
      case tups of
        PyList l \<Rightarrow> packs_loop K P wtr 0 l
      | _ \<Rightarrow> write_item K P wtr tups)"

section \<open>Skipping\<close>

text \<open>
  \<^verbatim>\<open>rdr->p += n\<close>. Moving the pointer past the end of the buffer is \<open>OutOfBounds\<close>: the
  code would go on reading beyond the Key's bytes.
\<close>

definition advance :: "nat \<Rightarrow> bytes \<Rightarrow> error + bytes" where
  "advance n rdr = (if n \<le> length rdr then Inr (drop n rdr) else Inl OutOfBounds)"

text \<open>
  \<^verbatim>\<open>skip_element\<close>, with the flag \<^verbatim>\<open>*eof\<close> passed in and returned. \<^verbatim>\<open>KIND_BOOL\<close> and
  \<^verbatim>\<open>KIND_NULL\<close> share one \<^verbatim>\<open>break\<close>: nothing after the kind byte is consumed.
\<close>

definition skip_element :: "kinds \<Rightarrow> bytes \<Rightarrow> bool \<Rightarrow> error + (bytes \<times> bool)" where
  "skip_element K rdr0 eof =
     and_then (reader_getchar rdr0) (\<lambda>(ch, rdr).
     and_then
       (if ch = KIND_BOOL K \<or> ch = KIND_NULL K then Inr (rdr, eof)
        else if ch = KIND_NEG_TIME K \<or> ch = KIND_NEG_INTEGER K
                \<or> ch = KIND_TIME K \<or> ch = KIND_INTEGER K then
          (let xr = (if ch = KIND_NEG_TIME K \<or> ch = KIND_NEG_INTEGER K then 0xff else 0) in
           and_then (reader_getchar rdr) (\<lambda>(b, rdr).
             let ch = xr XOR b in
             if ch \<le> 248 \<and> ch > 240 then and_then (advance 1 rdr) (\<lambda>rdr. Inr (rdr, eof))
             else if ch \<ge> 249 then
               and_then (advance (8 - (255 - unat ch)) rdr) (\<lambda>rdr. Inr (rdr, eof))
             else Inr (rdr, eof)))
        else if ch = KIND_TEXT K \<or> ch = KIND_BLOB K then
          Inr (dropWhile (\<lambda>b. 0x80 AND b \<noteq> 0) rdr, eof)
        else if ch = KIND_UUID K then and_then (advance 16 rdr) (\<lambda>rdr. Inr (rdr, eof))
        else if ch = KIND_SEP K then Inr (rdr, True)
        else Inl ValueError)
       (\<lambda>(rdr, eof). Inr (rdr, eof \<or> rdr = [])))"

lemma skip_element_shrinks:
  "skip_element K rdr eof = Inr (rdr', eof') \<Longrightarrow> length rdr' < length rdr"
  unfolding skip_element_def reader_getchar_def advance_def
  by (cases rdr)
     (auto simp: and_then_def Let_def less_Suc_eq_le intro: le_trans[OF length_dropWhile_le]
           split: if_splits sum.splits prod.splits list.splits)

section \<open>Keys\<close>

text \<open>A Key is its bytes \<^verbatim>\<open>p[0..Py_SIZE)\<close>. \<^verbatim>\<open>key_new\<close> encodes the elements in order.\<close>

definition key_new :: "kinds \<Rightarrow> 'u host_api \<Rightarrow> 'u element list \<Rightarrow> error + bytes" where
  "key_new K P args = write_tuple K P [] args"

definition key_from_raw :: "bytes \<Rightarrow> bytes \<Rightarrow> bytes option" where
  "key_from_raw prefix raw =
     (if prefix_mismatch prefix raw then None else Some (drop (length prefix) raw))"

definition key_to_raw :: "bytes \<Rightarrow> bytes \<Rightarrow> bytes" where
  "key_to_raw self prefix = prefix @ self"

text \<open>The loop of \<^verbatim>\<open>key_length\<close>.\<close>

function key_length_loop :: "kinds \<Rightarrow> bytes \<Rightarrow> bool \<Rightarrow> nat \<Rightarrow> error + nat" where
  "key_length_loop K rdr eof len =
     (if \<not> eof then
        (case skip_element K rdr eof of Inl e \<Rightarrow> Inl e
         | Inr (rdr1, eof1) \<Rightarrow> key_length_loop K rdr1 eof1 (len + 1))
      else Inr len)"
  by pat_completeness auto
termination
  by (relation "measure (\<lambda>(K, rdr, eof, len). length rdr)")
     (auto dest: skip_element_shrinks)

declare key_length_loop.simps [simp del]

definition key_length :: "kinds \<Rightarrow> bytes \<Rightarrow> error + nat" where
  "key_length K self = key_length_loop K self (self = []) 0"

text \<open>
  The loop \<^verbatim>\<open>while(i-- && !eof)\<close> of \<^verbatim>\<open>key_item\<close>; \<^verbatim>\<open>i\<close> is a \<^verbatim>\<open>Py_ssize_t\<close> and may
  be negative.
\<close>

function key_item_loop :: "kinds \<Rightarrow> int \<Rightarrow> bytes \<Rightarrow> bool \<Rightarrow> error + (bytes \<times> bool)" where
  "key_item_loop K i rdr eof =
     (if i \<noteq> 0 \<and> \<not> eof then
        (case skip_element K rdr eof of Inl e \<Rightarrow> Inl e
         | Inr (rdr1, eof1) \<Rightarrow> key_item_loop K (i - 1) rdr1 eof1)
      else Inr (rdr, eof))"
  by pat_completeness auto
termination
  by (relation "measure (\<lambda>(K, i, rdr, eof). length rdr)")
     (auto dest: skip_element_shrinks)

declare key_item_loop.simps [simp del]

text \<open>
  \<^verbatim>\<open>key_item\<close>. For a negative index the code computes \<^verbatim>\<open>i = len - i\<close>, where
  \<^verbatim>\<open>len\<close> is -1 when \<^verbatim>\<open>key_length\<close> fails.
\<close>

definition key_item :: "kinds \<Rightarrow> 'u host_api \<Rightarrow> bytes \<Rightarrow> int \<Rightarrow> error + 'u element" where
  "key_item K P self i0 =
     (let eof = (self = []);
          (i, eof) =
            (if i0 < 0 then
               (let len = (case key_length K self of Inl e \<Rightarrow> - 1 | Inr n \<Rightarrow> int n);
                    i = len - i0
                in (i, eof \<or> i < 0))
             else (i0, eof))
      in and_then (key_item_loop K i self eof) (\<lambda>(rdr, eof).
           if eof then Inl IndexError
           else and_then (read_element K P rdr) (\<lambda>(arg, rdr). Inr arg)))"

text \<open>
  Indexing, \<^verbatim>\<open>k[i]\<close>. \<^verbatim>\<open>key_item\<close> is the \<^verbatim>\<open>sq_item\<close> slot of the type, which has no
  \<^verbatim>\<open>mp_subscript\<close>, so the call comes from CPython's \<^verbatim>\<open>PySequence_GetItem\<close>
  (\<^verbatim>\<open>Objects/abstract.c\<close>, not among the sources at hand): to a negative index it first
  adds the result of the \<^verbatim>\<open>sq_length\<close> slot, here \<^verbatim>\<open>key_length\<close>, and returns its error if
  that fails; then it calls \<^verbatim>\<open>sq_item\<close>. So \<^verbatim>\<open>key_item\<close> gets a negative index only
  when the index was below minus the length.
\<close>

definition PySequence_GetItem :: "kinds \<Rightarrow> 'u host_api \<Rightarrow> bytes \<Rightarrow> int \<Rightarrow> error + 'u element" where
  "PySequence_GetItem K P self i =
     (if i < 0 then
        (case key_length K self of Inl e \<Rightarrow> Inl e
         | Inr l \<Rightarrow> key_item K P self (i + int l))
      else key_item K P self i)"

text \<open>
  The iterator: the Key and a position in its bytes. \<^verbatim>\<open>keyiter_next\<close> returns the
  element read and the iterator moved behind it, or \<open>None\<close>: a \<^verbatim>\<open>NULL\<close> with no exception
  set, which ends the iteration. That is its return at the end of the Key, and what it
  passes on when \<^verbatim>\<open>read_element\<close> returns \<^verbatim>\<open>NULL\<close> with no exception.
\<close>

record KeyIter =
  key :: bytes
  pos :: nat

definition key_iter :: "bytes \<Rightarrow> KeyIter" where
  "key_iter self = \<lparr> key = self, pos = 0 \<rparr>"

definition keyiter_next :: "kinds \<Rightarrow> 'u host_api \<Rightarrow> KeyIter
    \<Rightarrow> error + ('u element \<times> KeyIter) option" where
  "keyiter_next K P self =
     (let size = length (key self) in
      if pos self \<ge> size then Inr None
      else
        (case read_element K P (drop (pos self) (key self)) of
           Inl e \<Rightarrow> if e = SystemError then Inr None else Inl e
         | Inr (elem, rdr) \<Rightarrow> Inr (Some (elem, self\<lparr> pos := size - length rdr \<rparr>))))"

text \<open>Running the iterator to its end, as \<^verbatim>\<open>tuple(key)\<close> does.\<close>

function key_elements :: "kinds \<Rightarrow> 'u host_api \<Rightarrow> KeyIter \<Rightarrow> 'u element list
    \<Rightarrow> error + 'u element list" where
  "key_elements K P it acc =
     (case keyiter_next K P it of Inl e \<Rightarrow> Inl e
      | Inr None \<Rightarrow> Inr acc
      | Inr (Some (elem, it1)) \<Rightarrow> key_elements K P it1 (acc @ [elem]))"
  by pat_completeness auto
termination
  by (relation "measure (\<lambda>(K, P, it, acc). length (key it) - pos it)")
     (auto simp: keyiter_next_def Let_def
           split: if_splits sum.splits prod.splits dest!: read_element_shrinks)

declare key_elements.simps [simp del]

section \<open>Comparison\<close>

text \<open>The comparison of two Keys in \<^verbatim>\<open>key_richcompare\<close>.\<close>

definition key_cmp_key :: "bytes \<Rightarrow> bytes \<Rightarrow> int" where
  "key_cmp_key self other =
     (let s1 = length self; s2 = length other;
          minsize = (if s1 < s2 then s1 else s2);
          cmpres = memcmp self other minsize
      in if cmpres = 0 then (if s1 < s2 then - 1 else if s1 > s2 then 1 else cmpres)
         else cmpres)"

text \<open>
  The loop of the comparison with a tuple: \<open>kp\<close> holds the \<^verbatim>\<open>remain\<close> bytes of the Key
  not yet compared, \<open>other\<close> the items of the tuple from index \<^verbatim>\<open>ti\<close> on. Each item is
  encoded alone into the scratch writer. The loop returns \<^verbatim>\<open>cmpres\<close> and what is left
  of both.
\<close>

fun key_cmp_tuple_loop :: "kinds \<Rightarrow> 'u host_api \<Rightarrow> bytes \<Rightarrow> 'u element list
    \<Rightarrow> error + (int \<times> bytes \<times> 'u element list)" where
  "key_cmp_tuple_loop K P kp [] = Inr (0, kp, [])"
| "key_cmp_tuple_loop K P kp (arg # other) =
     (if kp \<noteq> [] then
        (case write_element K P [] arg of Inl e \<Rightarrow> Inl e
         | Inr p \<Rightarrow>
            (let remain = length kp;
                 minsz = (if remain < length p then remain else length p);
                 cmpres = memcmp kp p minsz
             in if cmpres \<noteq> 0 then Inr (cmpres, kp, other)
                else key_cmp_tuple_loop K P (drop minsz kp) other))
      else Inr (0, kp, arg # other))"

definition key_cmp_tuple :: "kinds \<Rightarrow> 'u host_api \<Rightarrow> bytes \<Rightarrow> 'u element list \<Rightarrow> error + int" where
  "key_cmp_tuple K P self other =
     and_then (key_cmp_tuple_loop K P self other) (\<lambda>(cmpres, kp, rest).
       Inr (if cmpres = 0 then (if kp \<noteq> [] then 1 else if rest \<noteq> [] then - 1 else cmpres)
            else cmpres))"

datatype cmpop = Py_LT | Py_LE | Py_EQ | Py_NE | Py_GT | Py_GE

definition cmp_result :: "cmpop \<Rightarrow> int \<Rightarrow> bool" where
  "cmp_result op cmpres =
     (case op of Py_LT \<Rightarrow> cmpres < 0 | Py_LE \<Rightarrow> cmpres \<le> 0 | Py_EQ \<Rightarrow> cmpres = 0
      | Py_NE \<Rightarrow> cmpres \<noteq> 0 | Py_GT \<Rightarrow> cmpres > 0 | Py_GE \<Rightarrow> cmpres \<ge> 0)"

definition key_richcompare :: "kinds \<Rightarrow> 'u host_api \<Rightarrow> bytes \<Rightarrow> 'u pyobject \<Rightarrow> cmpop
    \<Rightarrow> error + bool" where
  "key_richcompare K P self other op =
     (case other of
        PyKey p \<Rightarrow> Inr (cmp_result op (key_cmp_key self p))
      | PyTuple tup \<Rightarrow>
          and_then (key_cmp_tuple K P self tup) (\<lambda>cmpres. Inr (cmp_result op cmpres))
      | _ \<Rightarrow> if op = Py_EQ then Inr False else if op = Py_NE then Inr True else Inl TypeError)"

text \<open>Byte-wise order of two byte strings: the Key-to-Key comparison says "less".\<close>

definition bytes_less :: "bytes \<Rightarrow> bytes \<Rightarrow> bool" where
  "bytes_less x y = (key_cmp_key x y < 0)"

text \<open>
  The aware datetime of the instant \<open>ms\<close> milliseconds after the epoch, in the zone of
  \<open>offset\<close> seconds.
\<close>

definition datetime_at :: "int \<Rightarrow> int \<Rightarrow> datetime" where
  "datetime_at ms offset =
     \<lparr> dt_timegm = ms div 1000 + offset, dt_microsecond = nat (ms mod 1000) * 1000,
       dt_utcoffset = Some offset \<rparr>"


text \<open>
  A sample host for concrete inputs: a unicode string is held as its UTF-8 bytes, so that
  encoding and decoding copy them; the local zone is UTC; the datetime built from a
  timestamp is that of its instant.
\<close>

definition sample_host :: "bytes host_api" where
  "sample_host = \<lparr> PyUnicode_EncodeUTF8 = Some, PyUnicode_DecodeUTF8 = Some,
     local_utcoffset = (\<lambda>ts. 0),
     PyDateTime_FromTimestamp =
       (\<lambda>neg v offset. Some (datetime_at (if neg then - uint v else uint v) offset)) \<rparr>"









section \<open>Auxiliary definitions\<close>

text \<open>
  What \<^verbatim>\<open>write_str\<close> writes after the first output byte of an input byte \<open>b\<close> read at
  shift \<open>s\<close>: the rest of the loop.
\<close>

definition str_tail :: "nat \<Rightarrow> byte \<Rightarrow> bytes \<Rightarrow> bytes" where
  "str_tail s b p = (if s < 7 then write_str_loop (s + 1) (push_bit (7 - s) b) p []
                     else (0x80 OR b) # write_str_loop 1 0 p [])"

text \<open>The byte of \<open>v\<close> at bit \<open>k\<close>, in place, as \<^verbatim>\<open>read_plain_int\<close> puts it back.\<close>

definition byte_at :: "nat \<Rightarrow> 64 word \<Rightarrow> 64 word" where
  "byte_at k v = push_bit k (ucast (ucast (drop_bit k v) :: byte))"

text \<open>The big-endian value of a byte string, and the \<open>n\<close> low bytes of a word, high byte first.\<close>

fun be_nat :: "bytes \<Rightarrow> nat" where
  "be_nat [] = 0"
| "be_nat (b # bs) = unat b * 256 ^ length bs + be_nat bs"

fun be_bytes :: "nat \<Rightarrow> 64 word \<Rightarrow> bytes" where
  "be_bytes 0 v = []"
| "be_bytes (Suc n) v = ucast (drop_bit (8 * n) v) # be_bytes n v"

text \<open>
  The nine ranges of \<^verbatim>\<open>write_int\<close>, numbered from 0, with the length of the encoding,
  the offset of its big-endian value from the value encoded, and the bounds of its first
  byte.
\<close>

definition vrange :: "64 word \<Rightarrow> nat" where
  "vrange v = (if v \<le> 240 then 0 else if v \<le> 2287 then 1 else if v \<le> 67823 then 2
     else if v \<le> 0xffffff then 3 else if v \<le> 0xffffffff then 4
     else if v \<le> 0xffffffffff then 5 else if v \<le> 0xffffffffffff then 6
     else if v \<le> 0xffffffffffffff then 7 else 8)"

definition vlen :: "nat \<Rightarrow> nat" where
  "vlen r = (if r = 0 then 1 else if r = 1 then 2 else r + 1)"

definition voff :: "nat \<Rightarrow> nat" where
  "voff r = (if r = 0 then 0 else if r = 1 then 61456 else if r = 2 then 16316176
     else (247 + r) * 256 ^ r)"

definition fblo :: "nat \<Rightarrow> nat" where
  "fblo r = (if r = 0 then 0 else if r = 1 then 241 else 247 + r)"

definition fbhi :: "nat \<Rightarrow> nat" where
  "fbhi r = (if r = 0 then 240 else if r = 1 then 248 else 247 + r)"

definition varint_props :: "64 word \<Rightarrow> nat \<Rightarrow> bool" where
  "varint_props v r \<longleftrightarrow> length (write_int [] v 0 0) = vlen r
     \<and> be_nat (write_int [] v 0 0) = voff r + unat v
     \<and> (\<exists>x xs. write_int [] v 0 0 = x # xs \<and> fblo r \<le> unat x \<and> unat x \<le> fbhi r)"

text \<open>
  The bytes \<^verbatim>\<open>write_element\<close> appends for an element, those of a tuple, and those of
  the tuples of a batch after the first, each behind its separator.
\<close>

definition elem_bytes :: "kinds \<Rightarrow> 'u host_api \<Rightarrow> 'u element \<Rightarrow> bytes" where
  "elem_bytes K P e = (case write_element K P [] e of Inl x \<Rightarrow> [] | Inr bs \<Rightarrow> bs)"




section \<open>Strings: order and round trip\<close>

text \<open>
  An unsigned word compares as the pair of its high part (\<open>drop_bit k\<close>) and its low
  part (\<open>take_bit k\<close>). Each byte \<^verbatim>\<open>write_str\<close> emits is the bit 0x80, the low bits of
  the previous input byte as its high part, and the high bits of the current one as its
  low part; the lemmas below read these parts off.
\<close>

lemma nat_less_div_mod:
  fixes x y m :: nat
  assumes "0 < m"
  shows "x < y \<longleftrightarrow> x div m < y div m \<or> (x div m = y div m \<and> x mod m < y mod m)"
proof -
  have x: "x = m * (x div m) + x mod m" and y: "y = m * (y div m) + y mod m" by simp_all
  show ?thesis
  proof (cases "x div m" "y div m" rule: linorder_cases)
    case less
    then have "x div m + 1 \<le> y div m" by simp
    then have "m * (x div m + 1) \<le> m * (y div m)" using mult_le_mono2 by blast
    moreover have "x mod m < m" using assms by simp
    then have "x < m * (x div m) + m" using x by linarith
    then have "x < m * (x div m + 1)" by (simp add: distrib_left)
    ultimately have "x < y" using y by linarith
    with less show ?thesis by simp
  next
    case equal
    have "x < y \<longleftrightarrow> x mod m < y mod m"
      using x y equal by (metis nat_add_left_cancel_less)
    with equal show ?thesis by simp
  next
    case greater
    then have "\<not> x < y" using div_le_mono[of x y m] by (meson leD less_imp_le_nat)
    with greater show ?thesis by simp
  qed
qed

lemma word_less_split:
  fixes x y :: "'a::len word"
  shows "x < y \<longleftrightarrow> drop_bit k x < drop_bit k y
         \<or> (drop_bit k x = drop_bit k y \<and> take_bit k x < take_bit k y)"
proof -
  have d: "unat (drop_bit k w) = unat w div 2 ^ k" for w :: "'a word"
    unfolding unat_drop_bit_eq by (rule drop_bit_eq_div)
  have t: "unat (take_bit k w) = unat w mod 2 ^ k" for w :: "'a word"
    unfolding unsigned_take_bit_eq by (rule take_bit_eq_mod)
  show ?thesis
    unfolding word_less_nat_alt word_unat_eq_iff d t
    by (rule nat_less_div_mod) simp
qed

lemma bit_x80 [simp]: "bit (0x80 :: byte) n \<longleftrightarrow> n = 7"
proof -
  have "(0x80 :: byte) = 2 ^ 7" by simp
  then show ?thesis by (simp only: bit_exp_iff) auto
qed

lemma bit_x7f [simp]: "bit (0x7f :: byte) n \<longleftrightarrow> n < 7"
proof -
  have "(0x7f :: byte) = mask 7" by (simp add: mask_eq_exp_minus_1)
  then show ?thesis by (simp only: bit_mask_iff) auto
qed

lemma bit_x80_int [simp]: "bit (0x80 :: int) n \<longleftrightarrow> n = 7"
proof -
  have "(0x80 :: int) = 2 ^ 7" by simp
  then show ?thesis by (simp only: bit_exp_iff) auto
qed

lemma bit_x7f_int [simp]: "bit (0x7f :: int) n \<longleftrightarrow> n < 7"
proof -
  have "(0x7f :: int) = mask 7" by (simp add: mask_eq_exp_minus_1)
  then show ?thesis by (simp only: bit_mask_iff) auto
qed

lemma str_byte_high_part:
  fixes prev b :: byte
  assumes "1 \<le> s" "s \<le> 7"
  shows "drop_bit (8 - s) (0x80 OR push_bit (8 - s) prev OR drop_bit s b)
       = drop_bit (8 - s) (0x80 OR push_bit (8 - s) prev)"
  using assms  by (intro bit_word_eqI) (auto simp: bit_simps dest: bit_imp_le_length)

lemma str_byte_low_part:
  fixes prev b :: byte
  assumes "1 \<le> s" "s \<le> 7"
  shows "take_bit (8 - s) (0x80 OR push_bit (8 - s) prev OR drop_bit s b) = drop_bit s b"
  using assms  by (intro bit_word_eqI) (auto simp: bit_simps dest: bit_imp_le_length)

lemma trailer_top_bit:
  fixes a :: byte
  assumes "s \<le> 7"
  shows "drop_bit s (drop_bit (7 - s) (0x80 OR push_bit (7 - s) a)) = 1"
  using assms  by (intro bit_word_eqI) (auto simp: bit_simps dest: bit_imp_le_length)

lemma trailer_low_part:
  fixes a :: byte
  assumes "s \<le> 7"
  shows "take_bit s (drop_bit (7 - s) (0x80 OR push_bit (7 - s) a)) = take_bit s a"
  using assms  by (intro bit_word_eqI) (auto simp: bit_simps dest: bit_imp_le_length)

lemma read_str_byte:
  fixes prev b b' :: byte
  assumes "1 \<le> s" "s \<le> 7"
  shows "push_bit s (0x80 OR push_bit (8 - s) prev OR drop_bit s b)
         OR drop_bit (7 - s) ((0x80 OR push_bit (7 - s) b OR drop_bit (s + 1) b') AND 0x7f) = b"
proof (rule bit_word_eqI)
  fix n
  assume "n < LENGTH(8)"
  with assms show "bit (push_bit s (0x80 OR push_bit (8 - s) prev OR drop_bit s b)
         OR drop_bit (7 - s) ((0x80 OR push_bit (7 - s) b OR drop_bit (s + 1) b') AND 0x7f)) n
      = bit b n"
    by (cases "s \<le> n") (auto simp: bit_simps dest: bit_imp_le_length)
qed

lemma write_str_loop_append:
  "write_str_loop s t xs wtr = wtr @ write_str_loop s t xs []"
proof (induction xs arbitrary: s t wtr)
  case Nil
  show ?case by (simp add: writer_putchar_def)
next
  case (Cons b p)
  show ?case
    by (simp add: Let_def writer_putchar_def
        Cons.IH[of _ _ "wtr @ [0x80 OR t OR drop_bit s b]"]
        Cons.IH[of _ _ "[0x80 OR t OR drop_bit s b]"]
        Cons.IH[of _ _ "wtr @ [0x80 OR t OR drop_bit s b, 0x80 OR b]"]
        Cons.IH[of _ _ "[0x80 OR t OR drop_bit s b, 0x80 OR b]"])
qed

lemma wsl_Cons:
  "write_str_loop s t (b # p) [] = (0x80 OR t OR drop_bit s b) # str_tail s b p"
  by (simp add: Let_def writer_putchar_def str_tail_def
      write_str_loop_append[of _ _ _ "[0x80 OR t OR drop_bit s b]"]
      write_str_loop_append[of _ _ _ "[0x80 OR t OR drop_bit s b, 0x80 OR b]"])

lemma wsl_Nil: "write_str_loop s t [] [] = (if s > 1 then [0x80 OR t] else [])"
  by (simp add: writer_putchar_def)

declare write_str_loop.simps [simp del]

lemma wsl_nonempty: "1 < s \<Longrightarrow> write_str_loop s t xs [] \<noteq> []"
  by (cases xs) (simp_all add: wsl_Nil wsl_Cons)

lemma str_tail_nonempty: "1 \<le> s \<Longrightarrow> str_tail s b p \<noteq> []"
  by (simp add: str_tail_def wsl_nonempty)

lemma high_bit_le_or: "(0x80 :: byte) \<le> 0x80 OR t"
  by (rule le_word_or2)

lemma wsl_high_bit: "c \<in> set (write_str_loop s t xs []) \<Longrightarrow> 0x80 \<le> c"
proof (induction xs arbitrary: s t)
  case Nil
  then show ?case by (auto simp: wsl_Nil le_word_or2 split: if_splits)
next
  case (Cons b p)
  then show ?case
    by (auto simp: wsl_Cons str_tail_def le_word_or2 or.assoc split: if_splits)
qed

lemma str_byte_less_iff:
  fixes prev a b :: byte
  assumes "1 \<le> s" "s \<le> 7"
  shows "0x80 OR push_bit (8 - s) prev OR drop_bit s a < 0x80 OR push_bit (8 - s) prev OR drop_bit s b
         \<longleftrightarrow> drop_bit s a < drop_bit s b"
proof -
  let ?A = "0x80 OR push_bit (8 - s) prev OR drop_bit s a"
  let ?B = "0x80 OR push_bit (8 - s) prev OR drop_bit s b"
  have "?A < ?B \<longleftrightarrow> drop_bit (8 - s) ?A < drop_bit (8 - s) ?B
      \<or> (drop_bit (8 - s) ?A = drop_bit (8 - s) ?B \<and> take_bit (8 - s) ?A < take_bit (8 - s) ?B)"
    by (rule word_less_split)
  then show ?thesis unfolding str_byte_high_part[OF assms] str_byte_low_part[OF assms] by simp
qed

lemma trailer_less:
  fixes a b u v :: byte
  assumes "s \<le> 7" "take_bit s a < take_bit s b"
  shows "drop_bit (7 - s) (0x80 OR push_bit (7 - s) a) < drop_bit (7 - s) (0x80 OR push_bit (7 - s) b)"
proof -
  let ?A = "drop_bit (7 - s) (0x80 OR push_bit (7 - s) a)"
  let ?B = "drop_bit (7 - s) (0x80 OR push_bit (7 - s) b)"
  have "?A < ?B \<longleftrightarrow> drop_bit s ?A < drop_bit s ?B
      \<or> (drop_bit s ?A = drop_bit s ?B \<and> take_bit s ?A < take_bit s ?B)"
    by (rule word_less_split)
  then show ?thesis unfolding trailer_top_bit[OF assms(1)] trailer_low_part[OF assms(1)] using assms(2) by simp
qed

lemma str_byte_trailer_less:
  fixes a b u v :: byte
  assumes "1 \<le> s" "s \<le> 6" "take_bit s a < take_bit s b"
  shows "0x80 OR push_bit (7 - s) a OR drop_bit (s + 1) u
       < 0x80 OR push_bit (7 - s) b OR drop_bit (s + 1) v"
proof -
  have s1: "1 \<le> s + 1" "s + 1 \<le> 7" using assms by simp_all
  have k: "8 - (s + 1) = 7 - s" by simp
  from assms have "s \<le> 7" by simp
  let ?A = "0x80 OR push_bit (7 - s) a OR drop_bit (s + 1) u"
  let ?B = "0x80 OR push_bit (7 - s) b OR drop_bit (s + 1) v"
  have "?A < ?B \<longleftrightarrow> drop_bit (7 - s) ?A < drop_bit (7 - s) ?B
      \<or> (drop_bit (7 - s) ?A = drop_bit (7 - s) ?B \<and> take_bit (7 - s) ?A < take_bit (7 - s) ?B)"
    by (rule word_less_split)
  then show ?thesis
    unfolding str_byte_high_part[OF s1, unfolded k] using trailer_less[OF \<open>s \<le> 7\<close> assms(3)] by blast
qed

lemma last_byte_less:
  fixes a b :: byte
  assumes "take_bit 7 a < take_bit 7 b"
  shows "0x80 OR a < 0x80 OR b"
  using trailer_less[of 7 a b] assms by simp

lemma wsl_head:
  "1 < s \<Longrightarrow> \<exists>u rest. write_str_loop s t xs [] = (0x80 OR t OR drop_bit s u) # rest"
proof (cases xs)
  case Nil
  assume "1 < s"
  then have "write_str_loop s t xs [] = (0x80 OR t OR drop_bit s 0) # []"
    using Nil by (simp add: wsl_Nil)
  then show ?thesis by blast
next
  case (Cons b p)
  then show ?thesis by (auto simp: wsl_Cons)
qed

lemma wsl_trailer_less:
  assumes "1 \<le> s" "s \<le> 6" "take_bit s a < take_bit s b"
  shows "write_str_loop (s + 1) (push_bit (7 - s) a) xs []
       < write_str_loop (s + 1) (push_bit (7 - s) b) ys []"
proof -
  from assms have "1 < s + 1" by simp
  from wsl_head[OF this] obtain u r where
    x: "write_str_loop (s + 1) (push_bit (7 - s) a) xs [] = (0x80 OR push_bit (7 - s) a OR drop_bit (s + 1) u) # r"
    by blast
  from wsl_head[OF \<open>1 < s + 1\<close>] obtain v q where
    y: "write_str_loop (s + 1) (push_bit (7 - s) b) ys [] = (0x80 OR push_bit (7 - s) b OR drop_bit (s + 1) v) # q"
    by blast
  show ?thesis unfolding x y using str_byte_trailer_less[OF assms, of u v] by simp
qed

lemma str_tail_less:
  assumes "1 \<le> s" "s \<le> 7" "take_bit s a < take_bit s b"
  shows "str_tail s a xs < str_tail s b ys"
proof (cases "s < 7")
  case True
  with assms have "s \<le> 6" by simp
  from wsl_trailer_less[OF assms(1) this assms(3)] True show ?thesis by (simp add: str_tail_def)
next
  case False
  with assms have "s = 7" by simp
  with assms(3) last_byte_less[of a b] show ?thesis by (simp add: str_tail_def)
qed

lemma wsl_strict_mono:
  assumes "1 \<le> s" "s \<le> 7" "xs < ys"
  shows "write_str_loop s (push_bit (8 - s) prev) xs []
       < write_str_loop s (push_bit (8 - s) prev) ys []"
  using assms
proof (induction xs arbitrary: ys s prev)
  case Nil
  then obtain b p where ys: "ys = b # p" by (cases ys) auto
  show ?case
  proof (cases "1 < s")
    case False
    then show ?thesis by (simp add: ys wsl_Nil wsl_Cons)
  next
    case True
    have "0x80 OR push_bit (8 - s) prev \<le> 0x80 OR push_bit (8 - s) prev OR drop_bit s b"
      by (simp add: le_word_or2 or.assoc[symmetric])
    with True str_tail_nonempty[OF Nil(1), of b p] show ?thesis
      by (cases "str_tail s b p") (auto simp add: ys wsl_Nil wsl_Cons)
  qed
next
  case (Cons a as)
  then obtain b bs where ys: "ys = b # bs" by (cases ys) auto
  with Cons.prems have ab: "a < b \<or> (a = b \<and> as < bs)" by simp
  show ?case
  proof (cases "a = b")
    case True
    with ab have lt: "as < bs" by auto
    have "str_tail s b as < str_tail s b bs"
    proof (cases "s < 7")
      case True
      then have s1: "1 \<le> s + 1" "s + 1 \<le> 7" by simp_all
      have k: "8 - (s + 1) = 7 - s" by simp
      from Cons.IH[OF s1 lt, of b, unfolded k] True show ?thesis by (simp add: str_tail_def)
    next
      case False
      have "write_str_loop 1 (push_bit (8 - 1) 0) as [] < write_str_loop 1 (push_bit (8 - 1) 0) bs []"
        by (rule Cons.IH[OF _ _ lt]) simp_all
      with False show ?thesis by (simp add: str_tail_def)
    qed
    with True show ?thesis by (simp add: ys wsl_Cons)
  next
    case False
    with ab have "a < b" by auto
    then consider "drop_bit s a < drop_bit s b"
      | "drop_bit s a = drop_bit s b" "take_bit s a < take_bit s b"
      using word_less_split[of a b s] by blast
    then show ?thesis
    proof cases
      case 1
      then show ?thesis
        by (simp add: ys wsl_Cons str_byte_less_iff[OF Cons.prems(1,2)])
    next
      case 2
      from str_tail_less[OF Cons.prems(1,2) 2(2)] 2(1) show ?thesis
        by (simp add: ys wsl_Cons)
    qed
  qed
qed

lemma write_str_payload:
  "write_str [] x 0 = write_str_loop 1 0 x []"
  by (simp add: write_str_def)

lemma write_str_strict_mono: "x < y \<Longrightarrow> write_str [] x 0 < write_str [] y 0"
  using wsl_strict_mono[of 1 x y 0] by (simp add: write_str_payload)

lemma write_str_less_iff: "write_str [] x 0 < write_str [] y 0 \<longleftrightarrow> x < y"
proof
  assume l: "write_str [] x 0 < write_str [] y 0"
  show "x < y"
  proof (rule ccontr)
    assume "\<not> x < y"
    then consider "x = y" | "y < x" by fastforce
    then show False
    proof cases
      case 1
      with l show False by simp
    next
      case 2
      from write_str_strict_mono[OF this] l show False by simp
    qed
  qed
qed (rule write_str_strict_mono)

lemma bytes_less_Nil: "bytes_less [] y \<longleftrightarrow> y \<noteq> []"
  by (cases y) (simp_all add: bytes_less_def key_cmp_key_def)

lemma bytes_less_Nil2: "\<not> bytes_less x []"
  by (cases x) (simp_all add: bytes_less_def key_cmp_key_def)

lemma bytes_less_Cons:
  "bytes_less (a # x) (b # y) \<longleftrightarrow> a < b \<or> (a = b \<and> bytes_less x y)"
  by (auto simp: bytes_less_def key_cmp_key_def Let_def split: if_splits)

lemma bytes_less_iff: "bytes_less x y \<longleftrightarrow> x < y"
proof (induction x arbitrary: y)
  case Nil
  show ?case by (cases y) (simp_all add: bytes_less_Nil)
next
  case (Cons a x)
  show ?case by (cases y) (simp_all add: bytes_less_Nil2 bytes_less_Cons Cons.IH)
qed

lemma hi_not_less: "\<not> (0x80 OR x < (0x80 :: byte))"
  using le_word_or2[of "0x80 :: byte" x] by simp

lemma rsl_Cons_hi:
  "\<not> cb < 0x80 \<Longrightarrow> read_str_loop s lb (cb # rdr) wtr =
     (if s < 7 then read_str_loop (s + 1) cb rdr
                      (wtr @ [push_bit s lb OR drop_bit (7 - s) (cb AND 0x7f)])
      else (case rdr of [] \<Rightarrow> (wtr @ [push_bit s lb OR drop_bit (7 - s) (cb AND 0x7f)], [])
            | lb1 # rdr1 \<Rightarrow>
                if lb1 < 0x80 then (wtr @ [push_bit s lb OR drop_bit (7 - s) (cb AND 0x7f)], lb1 # rdr1)
                else read_str_loop 1 lb1 rdr1
                       (wtr @ [push_bit s lb OR drop_bit (7 - s) (cb AND 0x7f)])))"
  by (simp add: Let_def writer_putc_def writer_putchar_def split: list.splits)

lemma rsl_stop:
  "rest = [] \<or> hd rest < 0x80 \<Longrightarrow> read_str_loop s lb rest wtr = (wtr, rest)"
  by (cases rest) auto

declare read_str_loop.simps [simp del]

lemma read_str_byte_last:
  fixes prev b :: byte
  assumes "1 \<le> s" "s \<le> 7"
  shows "push_bit s (0x80 OR push_bit (8 - s) prev OR drop_bit s b)
         OR drop_bit (7 - s) ((0x80 OR push_bit (7 - s) b) AND 0x7f) = b"
  using read_str_byte[OF assms, of prev b 0] by simp

lemma read_str_loop_write:
  assumes "1 \<le> s" "s \<le> 7" "rest = [] \<or> hd rest < 0x80"
  shows "read_str_loop s (0x80 OR push_bit (8 - s) prev OR drop_bit s b)
           (str_tail s b p @ rest) acc = (acc @ b # p, rest)"
  using assms(1,2)
proof (induction p arbitrary: s prev b acc)
  case Nil
  let ?lb = "0x80 OR push_bit (8 - s) prev OR drop_bit s b"
  let ?cb = "0x80 OR push_bit (7 - s) b"
  have t: "str_tail s b [] = [?cb]"
    using Nil by (auto simp: str_tail_def wsl_Nil)
  have ch: "push_bit s ?lb OR drop_bit (7 - s) (?cb AND 0x7f) = b"
    by (rule read_str_byte_last[OF Nil])
  show ?case
    unfolding t append_Cons append_Nil rsl_Cons_hi[OF hi_not_less] ch
    using assms(3) by (cases rest) (auto simp: rsl_stop)
next
  case (Cons b2 p)
  let ?lb = "0x80 OR push_bit (8 - s) prev OR drop_bit s b"
  show ?case
  proof (cases "s < 7")
    case True
    let ?cb = "0x80 OR push_bit (7 - s) b OR drop_bit (s + 1) b2"
    have s1: "1 \<le> s + 1" "s + 1 \<le> 7" using True by simp_all
    have k: "8 - (s + 1) = 7 - s" by simp
    have t: "str_tail s b (b2 # p) = ?cb # str_tail (s + 1) b2 p"
      using True by (simp add: str_tail_def wsl_Cons)
    have ch: "push_bit s ?lb OR drop_bit (7 - s) (?cb AND 0x7f) = b"
      by (rule read_str_byte[OF Cons.prems])
    have nl: "\<not> ?cb < 0x80" by (rule hi_not_less)
    show ?thesis
      unfolding t append_Cons rsl_Cons_hi[OF nl] ch
      using True Cons.IH[OF s1, of b b2 "acc @ [b]", unfolded k] by simp
  next
    case False
    with Cons.prems have s7: "s = 7" by simp
    let ?cb = "0x80 OR b"
    let ?lb1 = "0x80 OR push_bit (8 - 1) 0 OR drop_bit 1 b2"
    have t: "str_tail s b (b2 # p) = ?cb # ?lb1 # str_tail 1 b2 p"
      using False by (simp add: str_tail_def wsl_Cons)
    have ch: "push_bit s ?lb OR drop_bit (7 - s) (?cb AND 0x7f) = b"
      using read_str_byte_last[OF Cons.prems, of prev b] s7 by simp
    have nl: "\<not> ?cb < 0x80" "\<not> ?lb1 < 0x80" by (rule hi_not_less)+
    have ih: "read_str_loop 1 ?lb1 (str_tail 1 b2 p @ rest) (acc @ [b]) = ((acc @ [b]) @ b2 # p, rest)"
      by (rule Cons.IH) simp_all
    show ?thesis
      unfolding t append_Cons rsl_Cons_hi[OF nl(1)] ch
      using False nl(2) ih by simp
  qed
qed

lemma read_str_write_str:
  assumes "rest = [] \<or> hd rest < 0x80"
  shows "read_str (write_str_loop 1 0 x [] @ rest) = (x, rest)"
proof (cases x)
  case Nil
  with assms show ?thesis
    by (cases rest) (auto simp: read_str_def reader_getc_def wsl_Nil)
next
  case (Cons b p)
  have "read_str_loop 1 (0x80 OR push_bit (8 - 1) 0 OR drop_bit 1 b) (str_tail 1 b p @ rest) []
      = ([] @ b # p, rest)"
    by (rule read_str_loop_write[OF _ _ assms]) simp_all
  then show ?thesis
    using hi_not_less[of "drop_bit 1 b"]
    by (simp add: Cons read_str_def reader_getc_def wsl_Cons)
qed

text \<open>
  C3. The escaped payloads written by \<^verbatim>\<open>write_str\<close> compare byte-wise as the strings
  they encode, and every payload byte has its high bit set. The payload is what
  \<^verbatim>\<open>write_str\<close> writes with no kind byte (\<open>kind = 0\<close>).
\<close>

theorem write_str_order_preserving:
  "(bytes_less (write_str [] x 0) (write_str [] y 0) \<longleftrightarrow> bytes_less x y)
   \<and> (\<forall>c \<in> set (write_str [] x 0). 0x80 \<le> c)"
proof
  show "bytes_less (write_str [] x 0) (write_str [] y 0) \<longleftrightarrow> bytes_less x y"
    by (simp only: bytes_less_iff write_str_less_iff)
  show "\<forall>c \<in> set (write_str [] x 0). 0x80 \<le> c"
    unfolding write_str_payload by (blast intro: wsl_high_bit)
qed

theorem write_str_order_preserving_witness:
  "write_str [] [0x61] 0 = [0xB0, 0xC0] \<and> write_str [] [0x61, 0] 0 = [0xB0, 0xC0, 0x80]
   \<and> bytes_less [0x61] [0x61, 0] \<and> bytes_less [0xB0, 0xC0] [0xB0, 0xC0, 0x80]
   \<and> (0x80 :: byte) \<le> 0xB0 \<and> (0x80 :: byte) \<le> 0xC0"
proof -
  have w: "write_str [] [0x61] 0 = [0xB0, 0xC0]" "write_str [] [0x61, 0] 0 = [0xB0, 0xC0, 0x80]"
    by (simp_all add: write_str_def write_str_loop.simps writer_putchar_def)
  have l: "bytes_less [0x61] [0x61, 0]"
    by (simp add: bytes_less_def key_cmp_key_def)
  from write_str_order_preserving [of "[0x61]" "[0x61, 0]"] w l show ?thesis
    by simp
qed

section \<open>Varints: order and round trip\<close>

text \<open>
  \<^verbatim>\<open>write_int\<close> is unfolded range by range. The round trip through
  \<^verbatim>\<open>read_plain_int\<close> is arithmetic on \<open>unat\<close> in the two offset ranges and bitwise
  in the big-endian ones. For the order, encodings of one range have one length and a
  big-endian value that is the value encoded plus a constant, and the first bytes of
  different ranges lie in disjoint, increasing intervals.
\<close>

lemma ucast_xor_byte:
  fixes xr :: byte and v :: "64 word"
  shows "(ucast (ucast xr XOR v) :: byte) = xr XOR ucast v"
  by (rule bit_word_eqI) (auto simp: bit_simps)

lemma write_int_0:
  "v \<le> 240 \<Longrightarrow> write_int wtr v 0 xr = wtr @ [xr XOR ucast v]"
  by (simp add: write_int_def writer_putc_def writer_putchar_def ucast_xor_byte)

lemma write_int_1:
  "240 < v \<Longrightarrow> v \<le> 2287 \<Longrightarrow> write_int wtr v 0 xr
     = wtr @ [xr XOR (241 + ucast (drop_bit 8 (v - 240))), xr XOR ucast ((v - 240) AND 0xff)]"
  by (simp add: write_int_def writer_putc_def writer_putchar_def Let_def not_le[symmetric])

lemma write_int_2:
  "2287 < v \<Longrightarrow> v \<le> 67823 \<Longrightarrow> write_int wtr v 0 xr
     = wtr @ [xr XOR 0xf9, xr XOR ucast (drop_bit 8 (v - 2288)), xr XOR ucast ((v - 2288) AND 0xff)]"
  by (simp add: write_int_def writer_putc_def writer_putchar_def Let_def word_le_nat_alt word_less_nat_alt)

lemma write_int_3:
  "67823 < v \<Longrightarrow> v \<le> 0xffffff \<Longrightarrow> write_int wtr v 0 xr
     = wtr @ [xr XOR 0xfa, xr XOR ucast (drop_bit 16 v), xr XOR ucast (drop_bit 8 v), xr XOR ucast v]"
  by (simp add: write_int_def writer_putc_def writer_putchar_def Let_def put_if_def
      word_le_nat_alt word_less_nat_alt)

lemma write_int_4:
  "0xffffff < v \<Longrightarrow> v \<le> 0xffffffff \<Longrightarrow> write_int wtr v 0 xr
     = wtr @ [xr XOR 0xfb, xr XOR ucast (drop_bit 24 v), xr XOR ucast (drop_bit 16 v),
              xr XOR ucast (drop_bit 8 v), xr XOR ucast v]"
  by (simp add: write_int_def writer_putc_def writer_putchar_def Let_def put_if_def
      word_le_nat_alt word_less_nat_alt)

lemma write_int_5:
  "0xffffffff < v \<Longrightarrow> v \<le> 0xffffffffff \<Longrightarrow> write_int wtr v 0 xr
     = wtr @ [xr XOR 0xfc, xr XOR ucast (drop_bit 32 v), xr XOR ucast (drop_bit 24 v),
              xr XOR ucast (drop_bit 16 v), xr XOR ucast (drop_bit 8 v), xr XOR ucast v]"
  by (simp add: write_int_def writer_putc_def writer_putchar_def Let_def put_if_def
      word_le_nat_alt word_less_nat_alt)

lemma write_int_6:
  "0xffffffffff < v \<Longrightarrow> v \<le> 0xffffffffffff \<Longrightarrow> write_int wtr v 0 xr
     = wtr @ [xr XOR 0xfd, xr XOR ucast (drop_bit 40 v), xr XOR ucast (drop_bit 32 v),
              xr XOR ucast (drop_bit 24 v), xr XOR ucast (drop_bit 16 v),
              xr XOR ucast (drop_bit 8 v), xr XOR ucast v]"
  by (simp add: write_int_def writer_putc_def writer_putchar_def Let_def put_if_def
      word_le_nat_alt word_less_nat_alt)

lemma write_int_7:
  "0xffffffffffff < v \<Longrightarrow> v \<le> 0xffffffffffffff \<Longrightarrow> write_int wtr v 0 xr
     = wtr @ [xr XOR 0xfe, xr XOR ucast (drop_bit 48 v), xr XOR ucast (drop_bit 40 v),
              xr XOR ucast (drop_bit 32 v), xr XOR ucast (drop_bit 24 v),
              xr XOR ucast (drop_bit 16 v), xr XOR ucast (drop_bit 8 v), xr XOR ucast v]"
  by (simp add: write_int_def writer_putc_def writer_putchar_def Let_def put_if_def
      word_le_nat_alt word_less_nat_alt)

lemma write_int_8:
  "0xffffffffffffff < v \<Longrightarrow> write_int wtr v 0 xr
     = wtr @ [xr XOR 0xff, xr XOR ucast (drop_bit 56 v), xr XOR ucast (drop_bit 48 v),
              xr XOR ucast (drop_bit 40 v),
              xr XOR ucast (drop_bit 32 v), xr XOR ucast (drop_bit 24 v),
              xr XOR ucast (drop_bit 16 v), xr XOR ucast (drop_bit 8 v), xr XOR ucast v]"
  by (simp add: write_int_def writer_putc_def writer_putchar_def Let_def put_if_def
      word_le_nat_alt word_less_nat_alt)

lemma write_int_kind:
  "kind \<noteq> 0 \<Longrightarrow> write_int wtr v kind xr = write_int (wtr @ [kind]) v 0 xr"
  by (simp add: write_int_def writer_putc_def writer_putchar_def)

lemma xor_cancel1: "(xr XOR c) XOR xr = (c :: byte)"
  by (simp add: xor.commute xor.left_commute)

lemma xor_cancel2: "xr XOR (xr XOR c) = (c :: byte)"
  by (simp add: xor.assoc[symmetric])

lemma unat_byte_less: "unat (b :: byte) < 256"
  using unsigned_less[of b, where 'a = nat] by simp

lemma unat_u64_less: "unat (v :: 64 word) < 18446744073709551616"
  using unsigned_less[of v, where 'a = nat] by simp

lemma unat_ucast_byte: "unat (ucast (v :: 64 word) :: byte) = unat v mod 256"
  by (simp add: unsigned_ucast_eq take_bit_eq_mod)

lemma unat_ucast_u64: "unat (ucast (b :: byte) :: 64 word) = unat b"
  using unat_byte_less[of b] by (simp add: unsigned_ucast_eq take_bit_eq_mod)

lemma unat_drop_bit_u64: "unat (drop_bit k (v :: 64 word)) = unat v div 2 ^ k"
  unfolding unat_drop_bit_eq by (rule drop_bit_eq_div)

lemma unat_and_ff: "unat ((v :: 64 word) AND 0xff) = unat v mod 256"
proof -
  have "(0xff :: 64 word) = mask 8" by (simp add: mask_eq_exp_minus_1)
  then have "v AND 0xff = take_bit 8 v" by (simp only: take_bit_eq_mask)
  then have "unat (v AND 0xff) = take_bit 8 (unat v)" by (simp only: unsigned_take_bit_eq)
  also have "\<dots> = unat v mod 2 ^ 8" by (rule take_bit_eq_mod)
  finally show ?thesis by simp
qed

lemma unat_add_ok:
  fixes a b :: "64 word"
  shows "unat a + unat b < 18446744073709551616 \<Longrightarrow> unat (a + b) = unat a + unat b"
  using unat_add_lem[of a b] by simp

lemma unat_mult_ok:
  fixes a b :: "64 word"
  shows "unat a * unat b < 18446744073709551616 \<Longrightarrow> unat (a * b) = unat a * unat b"
  using unat_mult_lem[of a b] by simp

lemma unat_sub_ok:
  fixes a b :: "64 word"
  shows "unat b \<le> unat a \<Longrightarrow> unat (a - b) = unat a - unat b"
  by (rule unat_sub) (simp add: word_le_nat_alt)

lemma read_plain_int_0:
  assumes "v \<le> 240"
  shows "read_plain_int ((xr XOR ucast v) # rest) xr = Inr (v, rest)"
proof -
  from assms have u: "unat v \<le> 240" by (simp add: word_le_nat_alt)
  then have c: "(ucast v :: byte) \<le> 240" by (simp add: word_le_nat_alt unat_ucast_byte)
  have "(ucast (ucast v :: byte) :: 64 word) = v"
    using u by (simp add: word_unat_eq_iff unat_ucast_byte unat_ucast_u64)
  with c show ?thesis
    by (simp add: read_plain_int_def reader_getc_def xor_cancel1)
qed

lemma read_plain_int_1:
  assumes "240 < v" "v \<le> 2287"
  shows "read_plain_int ((xr XOR (241 + ucast (drop_bit 8 (v - 240))))
           # (xr XOR ucast ((v - 240) AND 0xff)) # rest) xr = Inr (v, rest)"
proof -
  define v1 where "v1 = v - 240"
  define h :: byte where "h = ucast (drop_bit 8 v1)"
  define l :: byte where "l = ucast (v1 AND 0xff)"
  from assms have u: "240 < unat v" "unat v \<le> 2287"
    by (simp_all add: word_le_nat_alt word_less_nat_alt)
  have v1: "unat v1 = unat v - 240"
    unfolding v1_def using u by (subst unat_sub) (simp_all add: word_le_nat_alt)
  have h: "unat h = unat v1 div 256" using u v1 by (simp add: h_def unat_ucast_byte unat_drop_bit_u64)
  have l: "unat l = unat v1 mod 256" by (simp add: l_def unat_ucast_byte unat_and_ff)
  have hb: "unat h \<le> 7" using h v1 u by simp
  have c: "unat (241 + h) = 241 + unat h" using hb by (simp add: unat_word_ariths)
  have c1: "\<not> 241 + h \<le> 240" "241 + h \<le> 248"
    using c hb by (simp_all add: word_le_nat_alt)
  define c64 :: "64 word" where "c64 = ucast (241 + h)"
  define l64 :: "64 word" where "l64 = ucast l"
  have c64: "unat c64 = 241 + unat h" by (simp add: c64_def unat_ucast_u64 c)
  have l64: "unat l64 = unat l" by (simp add: l64_def unat_ucast_u64)
  have a: "unat (c64 - 241) = unat h"
    using c64 by (subst unat_sub_ok) simp_all
  define d where "d = c64 - 241"
  have b: "unat (256 * d) = 256 * unat h"
    using a hb by (subst unat_mult_ok) (simp_all add: d_def)
  define e where "e = 256 * d"
  have f: "unat (240 + e) = 240 + 256 * unat h"
    using b hb by (subst unat_add_ok) (simp_all add: e_def)
  define g where "g = 240 + e"
  have "unat (g + l64) = 240 + 256 * unat h + unat l"
    using f hb l64 unat_byte_less[of l] by (subst unat_add_ok) (simp_all add: g_def)
  with h l v1 u have "unat (g + l64) = unat v" by simp
  then have r: "240 + 256 * (ucast (241 + h) - 241) + ucast l = v"
    unfolding g_def e_def d_def c64_def l64_def by (simp only: word_unat_eq_iff)
  show ?thesis
    unfolding v1_def[symmetric] h_def[symmetric] l_def[symmetric]
    using c1 r
    by (simp add: read_plain_int_def reader_getc_def reader_getchar_def reader_ensure_def
        and_then_def xor_cancel1 xor_cancel2)
qed

lemma read_plain_int_2:
  assumes "2287 < v" "v \<le> 67823"
  shows "read_plain_int ((xr XOR 0xf9) # (xr XOR ucast (drop_bit 8 (v - 2288)))
           # (xr XOR ucast ((v - 2288) AND 0xff)) # rest) xr = Inr (v, rest)"
proof -
  define v1 where "v1 = v - 2288"
  define h :: byte where "h = ucast (drop_bit 8 v1)"
  define l :: byte where "l = ucast (v1 AND 0xff)"
  from assms have u: "2287 < unat v" "unat v \<le> 67823"
    by (simp_all add: word_le_nat_alt word_less_nat_alt)
  have v1: "unat v1 = unat v - 2288"
    unfolding v1_def using u by (subst unat_sub_ok) simp_all
  have h: "unat h = unat v1 div 256" using u v1 by (simp add: h_def unat_ucast_byte unat_drop_bit_u64)
  have l: "unat l = unat v1 mod 256" by (simp add: l_def unat_ucast_byte unat_and_ff)
  define h64 :: "64 word" where "h64 = ucast h"
  define l64 :: "64 word" where "l64 = ucast l"
  have h64: "unat h64 = unat h" by (simp add: h64_def unat_ucast_u64)
  have l64: "unat l64 = unat l" by (simp add: l64_def unat_ucast_u64)
  have b: "unat (256 * h64) = 256 * unat h"
    using h64 unat_byte_less[of h] by (subst unat_mult_ok) simp_all
  define e where "e = 256 * h64"
  have f: "unat (2288 + e) = 2288 + 256 * unat h"
    using b unat_byte_less[of h] by (subst unat_add_ok) (simp_all add: e_def)
  define g where "g = 2288 + e"
  have "unat (g + l64) = 2288 + 256 * unat h + unat l"
    using f l64 unat_byte_less[of l] unat_byte_less[of h] by (subst unat_add_ok) (simp_all add: g_def)
  with h l v1 u have "unat (g + l64) = unat v" by simp
  then have r: "2288 + 256 * ucast h + ucast l = v"
    unfolding g_def e_def h64_def l64_def by (simp only: word_unat_eq_iff)
  show ?thesis
    unfolding v1_def[symmetric] h_def[symmetric] l_def[symmetric]
    using r
    by (simp add: read_plain_int_def reader_getc_def reader_getchar_def reader_ensure_def
        and_then_def xor_cancel1 xor_cancel2)
qed

lemma hi_bits_zero:
  fixes v :: "64 word"
  assumes "v < 2 ^ k" "bit v n"
  shows "n < k"
proof -
  from assms(1) have "v AND mask k = v" by (rule less_mask_eq)
  with assms(2) have "bit (v AND mask k) n" by (simp only:)
  then have "bit (mask k :: 64 word) n" by (simp only: bit_and_iff)
  then show ?thesis by (simp only: bit_mask_iff)
qed

lemma hi24: "(v :: 64 word) \<le> 0xffffff \<Longrightarrow> bit v n \<Longrightarrow> n < 24"
  by (rule hi_bits_zero[of v 24]) (simp_all add: word_le_nat_alt word_less_nat_alt)
lemma hi32: "(v :: 64 word) \<le> 0xffffffff \<Longrightarrow> bit v n \<Longrightarrow> n < 32"
  by (rule hi_bits_zero[of v 32]) (simp_all add: word_le_nat_alt word_less_nat_alt)
lemma hi40: "(v :: 64 word) \<le> 0xffffffffff \<Longrightarrow> bit v n \<Longrightarrow> n < 40"
  by (rule hi_bits_zero[of v 40]) (simp_all add: word_le_nat_alt word_less_nat_alt)
lemma hi48: "(v :: 64 word) \<le> 0xffffffffffff \<Longrightarrow> bit v n \<Longrightarrow> n < 48"
  by (rule hi_bits_zero[of v 48]) (simp_all add: word_le_nat_alt word_less_nat_alt)
lemma hi56: "(v :: 64 word) \<le> 0xffffffffffffff \<Longrightarrow> bit v n \<Longrightarrow> n < 56"
  by (rule hi_bits_zero[of v 56]) (simp_all add: word_le_nat_alt word_less_nat_alt)

lemma bit_byte_at: "bit (byte_at k v) n \<longleftrightarrow> k \<le> n \<and> n < k + 8 \<and> bit v n"
  by (auto simp: byte_at_def bit_simps dest: bit_imp_le_length)

lemma join3: "v \<le> 0xffffff \<Longrightarrow> byte_at 16 v OR byte_at 8 v OR byte_at 0 v = v"
  by (rule bit_word_eqI) (auto simp: bit_simps bit_byte_at dest: hi24)
lemma join4: "v \<le> 0xffffffff \<Longrightarrow> byte_at 24 v OR byte_at 16 v OR byte_at 8 v OR byte_at 0 v = v"
  by (rule bit_word_eqI) (auto simp: bit_simps bit_byte_at dest: hi32)
lemma join5: "v \<le> 0xffffffffff \<Longrightarrow>
    byte_at 32 v OR byte_at 24 v OR byte_at 16 v OR byte_at 8 v OR byte_at 0 v = v"
  by (rule bit_word_eqI) (auto simp: bit_simps bit_byte_at dest: hi40)
lemma join6: "v \<le> 0xffffffffffff \<Longrightarrow>
    byte_at 40 v OR byte_at 32 v OR byte_at 24 v OR byte_at 16 v OR byte_at 8 v OR byte_at 0 v = v"
  by (rule bit_word_eqI) (auto simp: bit_simps bit_byte_at dest: hi48)
lemma join7: "v \<le> 0xffffffffffffff \<Longrightarrow>
    byte_at 48 v OR byte_at 40 v OR byte_at 32 v OR byte_at 24 v OR byte_at 16 v OR byte_at 8 v
      OR byte_at 0 v = v"
  by (rule bit_word_eqI) (auto simp: bit_simps bit_byte_at dest: hi56)
lemma join8: "byte_at 56 v OR byte_at 48 v OR byte_at 40 v OR byte_at 32 v OR byte_at 24 v
      OR byte_at 16 v OR byte_at 8 v OR byte_at 0 v = v"
  by (rule bit_word_eqI) (auto simp: bit_simps bit_byte_at dest: bit_imp_le_length)

lemmas rpi_defs = read_plain_int_def get_if_def reader_getc_def reader_getchar_def
  reader_ensure_def and_then_def xor_cancel1 xor_cancel2 byte_at_def or.assoc

lemma read_plain_int_3:
  assumes "v \<le> 0xffffff"
  shows "read_plain_int ((xr XOR 0xfa) # (xr XOR ucast (drop_bit 16 v))
           # (xr XOR ucast (drop_bit 8 v)) # (xr XOR ucast v) # rest) xr = Inr (v, rest)"
proof -
  have "read_plain_int ((xr XOR 0xfa) # (xr XOR ucast (drop_bit 16 v))
           # (xr XOR ucast (drop_bit 8 v)) # (xr XOR ucast v) # rest) xr
        = Inr (byte_at 16 v OR byte_at 8 v OR byte_at 0 v, rest)"
    by (simp add: rpi_defs)
  then show ?thesis by (simp only: join3[OF assms])
qed

lemma read_plain_int_4:
  assumes "v \<le> 0xffffffff"
  shows "read_plain_int ((xr XOR 0xfb) # (xr XOR ucast (drop_bit 24 v)) # (xr XOR ucast (drop_bit 16 v))
           # (xr XOR ucast (drop_bit 8 v)) # (xr XOR ucast v) # rest) xr = Inr (v, rest)"
proof -
  have "read_plain_int ((xr XOR 0xfb) # (xr XOR ucast (drop_bit 24 v)) # (xr XOR ucast (drop_bit 16 v))
           # (xr XOR ucast (drop_bit 8 v)) # (xr XOR ucast v) # rest) xr
        = Inr (byte_at 24 v OR byte_at 16 v OR byte_at 8 v OR byte_at 0 v, rest)"
    by (simp add: rpi_defs)
  then show ?thesis by (simp only: join4[OF assms])
qed

lemma read_plain_int_5:
  assumes "v \<le> 0xffffffffff"
  shows "read_plain_int ((xr XOR 0xfc) # (xr XOR ucast (drop_bit 32 v))
           # (xr XOR ucast (drop_bit 24 v)) # (xr XOR ucast (drop_bit 16 v))
           # (xr XOR ucast (drop_bit 8 v)) # (xr XOR ucast v) # rest) xr = Inr (v, rest)"
proof -
  have "read_plain_int ((xr XOR 0xfc) # (xr XOR ucast (drop_bit 32 v))
           # (xr XOR ucast (drop_bit 24 v)) # (xr XOR ucast (drop_bit 16 v))
           # (xr XOR ucast (drop_bit 8 v)) # (xr XOR ucast v) # rest) xr
        = Inr (byte_at 32 v OR byte_at 24 v OR byte_at 16 v OR byte_at 8 v OR byte_at 0 v, rest)"
    by (simp add: rpi_defs)
  then show ?thesis by (simp only: join5[OF assms])
qed

lemma read_plain_int_6:
  assumes "v \<le> 0xffffffffffff"
  shows "read_plain_int ((xr XOR 0xfd) # (xr XOR ucast (drop_bit 40 v))
           # (xr XOR ucast (drop_bit 32 v))
           # (xr XOR ucast (drop_bit 24 v)) # (xr XOR ucast (drop_bit 16 v))
           # (xr XOR ucast (drop_bit 8 v)) # (xr XOR ucast v) # rest) xr = Inr (v, rest)"
proof -
  have "read_plain_int ((xr XOR 0xfd) # (xr XOR ucast (drop_bit 40 v))
           # (xr XOR ucast (drop_bit 32 v))
           # (xr XOR ucast (drop_bit 24 v)) # (xr XOR ucast (drop_bit 16 v))
           # (xr XOR ucast (drop_bit 8 v)) # (xr XOR ucast v) # rest) xr
        = Inr (byte_at 40 v OR byte_at 32 v OR byte_at 24 v OR byte_at 16 v OR byte_at 8 v
               OR byte_at 0 v, rest)"
    by (simp add: rpi_defs)
  then show ?thesis by (simp only: join6[OF assms])
qed

lemma read_plain_int_7:
  assumes "v \<le> 0xffffffffffffff"
  shows "read_plain_int ((xr XOR 0xfe) # (xr XOR ucast (drop_bit 48 v))
           # (xr XOR ucast (drop_bit 40 v)) # (xr XOR ucast (drop_bit 32 v))
           # (xr XOR ucast (drop_bit 24 v)) # (xr XOR ucast (drop_bit 16 v))
           # (xr XOR ucast (drop_bit 8 v)) # (xr XOR ucast v) # rest) xr = Inr (v, rest)"
proof -
  have "read_plain_int ((xr XOR 0xfe) # (xr XOR ucast (drop_bit 48 v))
           # (xr XOR ucast (drop_bit 40 v)) # (xr XOR ucast (drop_bit 32 v))
           # (xr XOR ucast (drop_bit 24 v)) # (xr XOR ucast (drop_bit 16 v))
           # (xr XOR ucast (drop_bit 8 v)) # (xr XOR ucast v) # rest) xr
        = Inr (byte_at 48 v OR byte_at 40 v OR byte_at 32 v OR byte_at 24 v OR byte_at 16 v
               OR byte_at 8 v OR byte_at 0 v, rest)"
    by (simp add: rpi_defs)
  then show ?thesis by (simp only: join7[OF assms])
qed

lemma read_plain_int_8:
  shows "read_plain_int ((xr XOR 0xff) # (xr XOR ucast (drop_bit 56 v))
           # (xr XOR ucast (drop_bit 48 v))
           # (xr XOR ucast (drop_bit 40 v)) # (xr XOR ucast (drop_bit 32 v))
           # (xr XOR ucast (drop_bit 24 v)) # (xr XOR ucast (drop_bit 16 v))
           # (xr XOR ucast (drop_bit 8 v)) # (xr XOR ucast v) # rest) xr = Inr (v, rest)"
proof -
  have "read_plain_int ((xr XOR 0xff) # (xr XOR ucast (drop_bit 56 v))
           # (xr XOR ucast (drop_bit 48 v))
           # (xr XOR ucast (drop_bit 40 v)) # (xr XOR ucast (drop_bit 32 v))
           # (xr XOR ucast (drop_bit 24 v)) # (xr XOR ucast (drop_bit 16 v))
           # (xr XOR ucast (drop_bit 8 v)) # (xr XOR ucast v) # rest) xr
        = Inr (byte_at 56 v OR byte_at 48 v OR byte_at 40 v OR byte_at 32 v OR byte_at 24 v
               OR byte_at 16 v OR byte_at 8 v OR byte_at 0 v, rest)"
    by (simp add: rpi_defs)
  then show ?thesis by (simp only: join8)
qed

lemma read_plain_int_write_int:
  "read_plain_int (write_int [] v 0 xr @ rest) xr = Inr (v, rest)"
proof -
  consider "v \<le> 240" | "240 < v" "v \<le> 2287" | "2287 < v" "v \<le> 67823"
    | "67823 < v" "v \<le> 0xffffff" | "0xffffff < v" "v \<le> 0xffffffff"
    | "0xffffffff < v" "v \<le> 0xffffffffff" | "0xffffffffff < v" "v \<le> 0xffffffffffff"
    | "0xffffffffffff < v" "v \<le> 0xffffffffffffff" | "0xffffffffffffff < v"
    by fastforce
  then show ?thesis
  proof cases
    case 1 then show ?thesis by (simp add: write_int_0 read_plain_int_0)
  next
    case 2 then show ?thesis by (simp add: write_int_1 read_plain_int_1)
  next
    case 3 then show ?thesis by (simp add: write_int_2 read_plain_int_2)
  next
    case 4 then show ?thesis by (simp add: write_int_3 read_plain_int_3)
  next
    case 5 then show ?thesis by (simp add: write_int_4 read_plain_int_4)
  next
    case 6 then show ?thesis by (simp add: write_int_5 read_plain_int_5)
  next
    case 7 then show ?thesis by (simp add: write_int_6 read_plain_int_6)
  next
    case 8 then show ?thesis by (simp add: write_int_7 read_plain_int_7)
  next
    case 9 then show ?thesis by (simp add: write_int_8 read_plain_int_8)
  qed
qed

lemma be_nat_bound: "be_nat bs < 256 ^ length bs"
proof (induction bs)
  case Nil
  show ?case by simp
next
  case (Cons b bs)
  have "unat b * 256 ^ length bs + be_nat bs < unat b * 256 ^ length bs + 256 ^ length bs"
    using Cons.IH by simp
  also have "\<dots> = (unat b + 1) * 256 ^ length bs" by simp
  also have "\<dots> \<le> 256 * 256 ^ length bs"
    using unat_byte_less[of b] by (intro mult_le_mono1) simp
  finally show ?case by simp
qed

lemma be_nat_less:
  "length xs = length ys \<Longrightarrow> xs < ys \<longleftrightarrow> be_nat xs < be_nat ys"
proof (induction xs ys rule: list_induct2)
  case Nil
  show ?case by simp
next
  case (Cons a as b bs)
  let ?M = "256 ^ length as :: nat"
  have m: "0 < ?M" by simp
  have da: "(unat a * ?M + be_nat as) div ?M = unat a" "(unat a * ?M + be_nat as) mod ?M = be_nat as"
    using be_nat_bound[of as] by simp_all
  have db: "(unat b * ?M + be_nat bs) div ?M = unat b" "(unat b * ?M + be_nat bs) mod ?M = be_nat bs"
    using be_nat_bound[of bs] Cons.hyps by simp_all
  have "be_nat (a # as) < be_nat (b # bs) \<longleftrightarrow>
        unat a < unat b \<or> (unat a = unat b \<and> be_nat as < be_nat bs)"
    using nat_less_div_mod[OF m, of "unat a * ?M + be_nat as" "unat b * ?M + be_nat bs"]
    unfolding da db using Cons.hyps by simp
  then show ?case
    using Cons.IH by (simp add: word_less_nat_alt word_unat_eq_iff)
qed

lemma length_be_bytes [simp]: "length (be_bytes n v) = n"
  by (induction n) simp_all

lemma be_nat_be_bytes: "be_nat (be_bytes n v) = unat v mod 256 ^ n"
proof (induction n)
  case 0
  show ?case by simp
next
  case (Suc n)
  have "(2::nat) ^ (n * 8) = (2 ^ 8) ^ n" by (simp only: mult.commute[of n 8] power_mult)
  then have p: "(2::nat) ^ (n * 8) = 256 ^ n" by simp
  have "unat v mod (256 ^ n * 256) = 256 ^ n * (unat v div 256 ^ n mod 256) + unat v mod 256 ^ n"
    by (rule mod_mult2_eq)
  then show ?case using Suc by (simp add: unat_ucast_byte unat_drop_bit_u64 p mult.commute)
qed

lemma vrange_mono: "a \<le> b \<Longrightarrow> vrange a \<le> vrange b"
  by (simp add: vrange_def word_le_nat_alt)

lemma be_bytes_3: "be_bytes 3 v = [ucast (drop_bit 16 v), ucast (drop_bit 8 v), ucast v]"
  by (simp add: numeral_3_eq_3)
lemma be_bytes_4: "be_bytes 4 v = ucast (drop_bit 24 v) # be_bytes 3 v"
  using be_bytes.simps(2)[of 3 v] by simp
lemma be_bytes_5: "be_bytes 5 v = ucast (drop_bit 32 v) # be_bytes 4 v"
  using be_bytes.simps(2)[of 4 v] by simp
lemma be_bytes_6: "be_bytes 6 v = ucast (drop_bit 40 v) # be_bytes 5 v"
  using be_bytes.simps(2)[of 5 v] by simp
lemma be_bytes_7: "be_bytes 7 v = ucast (drop_bit 48 v) # be_bytes 6 v"
  using be_bytes.simps(2)[of 6 v] by simp
lemma be_bytes_8: "be_bytes 8 v = ucast (drop_bit 56 v) # be_bytes 7 v"
  using be_bytes.simps(2)[of 7 v] by simp

lemma props_big:
  assumes w: "write_int [] v 0 0 = ty # be_bytes r v"
    and ty: "unat ty = 247 + r" and r: "3 \<le> r" and v: "unat v < 256 ^ r"
  shows "varint_props v r"
  using r v by (simp add: varint_props_def w vlen_def voff_def fblo_def fbhi_def ty be_nat_be_bytes)

lemma props_0: "v \<le> 240 \<Longrightarrow> varint_props v 0"
  by (simp add: varint_props_def write_int_0 vlen_def voff_def fblo_def fbhi_def unat_ucast_byte word_le_nat_alt)

lemma props_1:
  assumes "240 < v" "v \<le> 2287"
  shows "varint_props v 1"
proof -
  define v1 where "v1 = v - 240"
  define h :: byte where "h = ucast (drop_bit 8 v1)"
  define l :: byte where "l = ucast (v1 AND 0xff)"
  from assms have u: "240 < unat v" "unat v \<le> 2287"
    by (simp_all add: word_le_nat_alt word_less_nat_alt)
  have v1: "unat v1 = unat v - 240"
    unfolding v1_def using u by (subst unat_sub_ok) simp_all
  have h: "unat h = unat v1 div 256" using u v1 by (simp add: h_def unat_ucast_byte unat_drop_bit_u64)
  have l: "unat l = unat v1 mod 256" by (simp add: l_def unat_ucast_byte unat_and_ff)
  have hb: "unat h \<le> 7" using h v1 u by simp
  have c: "unat (241 + h) = 241 + unat h" using hb by (simp add: unat_word_ariths)
  have w: "write_int [] v 0 0 = [241 + h, l]"
    using assms by (simp add: write_int_1 v1_def h_def l_def)
  have "be_nat [241 + h, l] = 61456 + unat v"
    using c h l v1 u by simp
  then show ?thesis
    using c hb by (simp add: varint_props_def w vlen_def voff_def fblo_def fbhi_def)
qed

lemma props_2:
  assumes "2287 < v" "v \<le> 67823"
  shows "varint_props v 2"
proof -
  define v1 where "v1 = v - 2288"
  define h :: byte where "h = ucast (drop_bit 8 v1)"
  define l :: byte where "l = ucast (v1 AND 0xff)"
  from assms have u: "2287 < unat v" "unat v \<le> 67823"
    by (simp_all add: word_le_nat_alt word_less_nat_alt)
  have v1: "unat v1 = unat v - 2288"
    unfolding v1_def using u by (subst unat_sub_ok) simp_all
  have h: "unat h = unat v1 div 256" using u v1 by (simp add: h_def unat_ucast_byte unat_drop_bit_u64)
  have l: "unat l = unat v1 mod 256" by (simp add: l_def unat_ucast_byte unat_and_ff)
  have w: "write_int [] v 0 0 = [0xf9, h, l]"
    using assms by (simp add: write_int_2 v1_def h_def l_def)
  have "be_nat [0xf9, h, l] = 16316176 + unat v"
    using h l v1 u by simp
  then show ?thesis
    by (simp add: varint_props_def w vlen_def voff_def fblo_def fbhi_def)
qed

lemma varint_props_vrange: "varint_props v (vrange v)"
proof -
  consider "v \<le> 240" | "240 < v" "v \<le> 2287" | "2287 < v" "v \<le> 67823"
    | "67823 < v" "v \<le> 0xffffff" | "0xffffff < v" "v \<le> 0xffffffff"
    | "0xffffffff < v" "v \<le> 0xffffffffff" | "0xffffffffff < v" "v \<le> 0xffffffffffff"
    | "0xffffffffffff < v" "v \<le> 0xffffffffffffff" | "0xffffffffffffff < v"
    by fastforce
  then show ?thesis
  proof cases
    case 1
    then have "vrange v = 0" by (simp add: vrange_def)
    with props_0[OF 1] show ?thesis by simp
  next
    case 2
    then have "vrange v = 1" by (simp add: vrange_def word_le_nat_alt word_less_nat_alt)
    with props_1[OF 2] show ?thesis by simp
  next
    case 3
    then have "vrange v = 2" by (simp add: vrange_def word_le_nat_alt word_less_nat_alt)
    with props_2[OF 3] show ?thesis by simp
  next
    case 4
    then have "vrange v = 3" by (simp add: vrange_def word_le_nat_alt word_less_nat_alt)
    moreover have "varint_props v 3"
      using 4 by (intro props_big[where ty = "0xfa"])
        (simp_all add: write_int_3 be_bytes_3 word_le_nat_alt word_less_nat_alt)
    ultimately show ?thesis by simp
  next
    case 5
    then have "vrange v = 4" by (simp add: vrange_def word_le_nat_alt word_less_nat_alt)
    moreover have "varint_props v 4"
      using 5 by (intro props_big[where ty = "0xfb"])
        (simp_all add: write_int_4 be_bytes_3 be_bytes_4 word_le_nat_alt word_less_nat_alt)
    ultimately show ?thesis by simp
  next
    case 6
    then have "vrange v = 5" by (simp add: vrange_def word_le_nat_alt word_less_nat_alt)
    moreover have "varint_props v 5"
      using 6 by (intro props_big[where ty = "0xfc"])
        (simp_all add: write_int_5 be_bytes_3 be_bytes_4 be_bytes_5 word_le_nat_alt word_less_nat_alt)
    ultimately show ?thesis by simp
  next
    case 7
    then have "vrange v = 6" by (simp add: vrange_def word_le_nat_alt word_less_nat_alt)
    moreover have "varint_props v 6"
      using 7 by (intro props_big[where ty = "0xfd"])
        (simp_all add: write_int_6 be_bytes_3 be_bytes_4 be_bytes_5 be_bytes_6 word_le_nat_alt word_less_nat_alt)
    ultimately show ?thesis by simp
  next
    case 8
    then have "vrange v = 7" by (simp add: vrange_def word_le_nat_alt word_less_nat_alt)
    moreover have "varint_props v 7"
      using 8 by (intro props_big[where ty = "0xfe"])
        (simp_all add: write_int_7 be_bytes_3 be_bytes_4 be_bytes_5 be_bytes_6 be_bytes_7 word_le_nat_alt word_less_nat_alt)
    ultimately show ?thesis by simp
  next
    case 9
    then have "vrange v = 8" by (simp add: vrange_def word_le_nat_alt word_less_nat_alt)
    moreover have "varint_props v 8"
      using 9 unat_u64_less[of v] by (intro props_big[where ty = "0xff"])
        (simp_all add: write_int_8 be_bytes_3 be_bytes_4 be_bytes_5 be_bytes_6 be_bytes_7 be_bytes_8 word_le_nat_alt word_less_nat_alt)
    ultimately show ?thesis by simp
  qed
qed

lemma fb_sep: "r < r' \<Longrightarrow> fbhi r < fblo r'"
  by (simp add: fbhi_def fblo_def)

lemma write_int_strict_mono:
  assumes "a < b"
  shows "write_int [] a 0 0 < write_int [] b 0 0"
proof -
  from assms have "vrange a \<le> vrange b" by (intro vrange_mono) simp
  then consider "vrange a < vrange b" | "vrange a = vrange b" by linarith
  then show ?thesis
  proof cases
    case 1
    from varint_props_vrange[of a] obtain x xs where
      x: "write_int [] a 0 0 = x # xs" "unat x \<le> fbhi (vrange a)"
      by (auto simp: varint_props_def)
    from varint_props_vrange[of b] obtain y ys where
      y: "write_int [] b 0 0 = y # ys" "fblo (vrange b) \<le> unat y"
      by (auto simp: varint_props_def)
    from fb_sep[OF 1] x(2) y(2) have "x < y" by (simp add: word_less_nat_alt)
    then show ?thesis by (simp add: x(1) y(1))
  next
    case 2
    from varint_props_vrange[of a] varint_props_vrange[of b] 2
    have l: "length (write_int [] a 0 0) = length (write_int [] b 0 0)"
      and "be_nat (write_int [] a 0 0) = voff (vrange b) + unat a"
      and "be_nat (write_int [] b 0 0) = voff (vrange b) + unat b"
      by (simp_all add: varint_props_def)
    with assms have "be_nat (write_int [] a 0 0) < be_nat (write_int [] b 0 0)"
      by (simp add: word_less_nat_alt)
    with be_nat_less[OF l] show ?thesis by simp
  qed
qed

lemma write_int_less_iff: "write_int [] a 0 0 < write_int [] b 0 0 \<longleftrightarrow> a < b"
proof
  assume l: "write_int [] a 0 0 < write_int [] b 0 0"
  show "a < b"
  proof (rule ccontr)
    assume "\<not> a < b"
    then consider "a = b" | "b < a" by fastforce
    then show False
    proof cases
      case 1
      with l show False by simp
    next
      case 2
      from write_int_strict_mono[OF this] l show False by simp
    qed
  qed
qed (rule write_int_strict_mono)

text \<open>
  C1. The varints written by \<^verbatim>\<open>write_int\<close> with no kind byte and \<open>xor = 0\<close> compare
  byte-wise as the values compare, and \<^verbatim>\<open>read_plain_int\<close> recovers every value from
  its encoding, reading all of it.
\<close>

theorem write_int_order_and_round_trip:
  "(bytes_less (write_int [] a 0 0) (write_int [] b 0 0) \<longleftrightarrow> a < b)
   \<and> read_plain_int (write_int [] v 0 0) 0 = Inr (v, [])"
  using read_plain_int_write_int [of v 0 "[]"]
  by (simp add: bytes_less_iff write_int_less_iff)

theorem write_int_order_and_round_trip_witness:
  "write_int [] 67823 0 0 = [0xf9, 0xff, 0xff] \<and> write_int [] 67824 0 0 = [0xfa, 1, 8, 0xf0]
   \<and> bytes_less [0xf9, 0xff, 0xff] [0xfa, 1, 8, 0xf0]
   \<and> read_plain_int [0xfa, 1, 8, 0xf0] 0 = Inr (67824, [])"
proof -
  have w: "write_int [] 67823 0 0 = [0xf9, 0xff, 0xff]" "write_int [] 67824 0 0 = [0xfa, 1, 8, 0xf0]"
    by (simp_all add: write_int_def put_if_def writer_putchar_def writer_putc_def)
  from write_int_order_and_round_trip [of 67823 67824 67824] show ?thesis
    by (simp add: w)
qed

section \<open>Prefixes\<close>

lemma memcmp_eq_0_iff:
  "n \<le> length x \<Longrightarrow> n \<le> length y \<Longrightarrow> memcmp x y n = 0 \<longleftrightarrow> take n x = take n y"
  by (induction x y n rule: memcmp.induct) auto

lemma prefix_mismatch_iff:
  "prefix_mismatch p s \<longleftrightarrow> length s < length p \<or> take (length p) s \<noteq> p"
  by (auto simp: prefix_mismatch_def memcmp_eq_0_iff)

section \<open>Elements: round trip\<close>

text \<open>
  \<^verbatim>\<open>write_element\<close> appends to the writer bytes that depend on the element only; they
  start with a kind byte, and \<^verbatim>\<open>read_element\<close> reads the element back from them when
  what follows is the end of the input or a byte below 0x80.
\<close>

lemma write_int_append0: "write_int wtr v 0 xr = wtr @ write_int [] v 0 xr"
proof -
  consider "v \<le> 240" | "240 < v" "v \<le> 2287" | "2287 < v" "v \<le> 67823"
    | "67823 < v" "v \<le> 0xffffff" | "0xffffff < v" "v \<le> 0xffffffff"
    | "0xffffffff < v" "v \<le> 0xffffffffff" | "0xffffffffff < v" "v \<le> 0xffffffffffff"
    | "0xffffffffffff < v" "v \<le> 0xffffffffffffff" | "0xffffffffffffff < v"
    by fastforce
  then show ?thesis
  proof cases
    case 1 then show ?thesis by (simp add: write_int_0)
  next
    case 2 then show ?thesis by (simp add: write_int_1)
  next
    case 3 then show ?thesis by (simp add: write_int_2)
  next
    case 4 then show ?thesis by (simp add: write_int_3)
  next
    case 5 then show ?thesis by (simp add: write_int_4)
  next
    case 6 then show ?thesis by (simp add: write_int_5)
  next
    case 7 then show ?thesis by (simp add: write_int_6)
  next
    case 8 then show ?thesis by (simp add: write_int_7)
  next
    case 9 then show ?thesis by (simp add: write_int_8)
  qed
qed

lemma write_int_append:
  "write_int wtr v kind xr = wtr @ (if kind \<noteq> 0 then [kind] else []) @ write_int [] v 0 xr"
proof (cases "kind = 0")
  case True
  then show ?thesis using write_int_append0[of wtr v xr] by simp
next
  case False
  then show ?thesis
    using write_int_append0[of "wtr @ [kind]" v xr] by (simp add: write_int_kind)
qed

lemma write_int_append1: "write_int wtr v kind xr = wtr @ write_int [] v kind xr"
proof (cases "kind = 0")
  case True
  then show ?thesis using write_int_append0[of wtr v xr] by simp
next
  case False
  then show ?thesis
    using write_int_append[of wtr v kind xr] write_int_append[of "[]" v kind xr] by simp
qed

lemma write_str_append:
  "write_str wtr s kind = wtr @ (if kind \<noteq> 0 then [kind] else []) @ write_str_loop 1 0 s []"
  using write_str_loop_append[of 1 0 s "wtr @ [kind]"] write_str_loop_append[of 1 0 s wtr]
  by (simp add: write_str_def writer_putchar_def)

lemma write_str_append1: "write_str wtr s kind = wtr @ write_str [] s kind"
  using write_str_append[of wtr s kind] write_str_append[of "[]" s kind] by simp

lemma write_time_append:
  "write_time K P wtr dt = map_option ((@) wtr) (write_time K P [] dt)"
  by (simp add: write_time_def Let_def write_int_append1[of wtr])

lemma write_element_append:
  "write_element K P wtr e =
     (case write_element K P [] e of Inl x \<Rightarrow> Inl x | Inr bs \<Rightarrow> Inr (wtr @ bs))"
proof (cases e)
  case (DateTime dt)
  then show ?thesis
    by (cases "write_time K P [] dt") (simp_all add: write_element_def write_time_append[of K P wtr])
next
  case (Integer i)
  then show ?thesis
    using write_int_append1[of wtr "word_of_int i" "KIND_INTEGER K" 0]
      write_int_append1[of wtr "- word_of_int i" "KIND_NEG_INTEGER K" "0xff"]
    by (simp add: write_element_def Let_def)
next
  case (Blob s)
  then show ?thesis
    using write_str_append1[of wtr s "KIND_BLOB K"] by (simp add: write_element_def)
next
  case (Text u)
  then show ?thesis
  proof (cases "PyUnicode_EncodeUTF8 P u")
    case None
    with Text show ?thesis by (simp add: write_element_def)
  next
    case (Some utf8)
    with Text show ?thesis
      using write_str_append1[of wtr utf8 "KIND_TEXT K"] by (simp add: write_element_def)
  qed
qed (simp_all add: write_element_def writer_putc_def writer_putchar_def writer_puts_def)

lemma encodable_write_Nil:
  "encodable P e \<Longrightarrow> write_element K P [] e = Inr (elem_bytes K P e)"
  by (cases e) (auto simp: elem_bytes_def encodable_def write_element_def Let_def)

lemma encodable_write:
  "encodable P e \<Longrightarrow> write_element K P wtr e = Inr (wtr @ elem_bytes K P e)"
  by (subst write_element_append) (simp add: encodable_write_Nil)

lemma kinds_ok_facts:
  assumes "kinds_ok K"
  shows "distinct (kind_list K)" and "\<And>k. k \<in> set (kind_list K) \<Longrightarrow> k \<noteq> 0 \<and> k < 0x80"
  using assms by (simp_all add: kinds_ok_def list_all_iff)

lemma uint_nonneg_i64:
  "0 \<le> i \<Longrightarrow> i < 2 ^ 63 \<Longrightarrow> uint (word_of_int i :: 64 word) = i"
  by (simp add: uint_word_of_int)

lemma uint_neg_i64:
  assumes "i < 0" "- (2 ^ 63) \<le> i"
  shows "uint (- word_of_int i :: 64 word) = - i"
proof -
  have "(- word_of_int i :: 64 word) = word_of_int (- i)" by simp
  then have "uint (- word_of_int i :: 64 word) = (- i) mod 2 ^ 64"
    by (simp only: uint_word_of_int) simp
  also have "\<dots> = - i" using assms by simp
  finally show ?thesis .
qed

lemma elem_bytes_Null: "elem_bytes K P Null = [KIND_NULL K]"
  by (simp add: elem_bytes_def write_element_def writer_putc_def writer_putchar_def)

lemma elem_bytes_Bool: "elem_bytes K P (Bool b) = [KIND_BOOL K, if b then 1 else 0]"
  by (simp add: elem_bytes_def write_element_def writer_putc_def writer_putchar_def)

lemma elem_bytes_UUID: "elem_bytes K P (UUID ss) = KIND_UUID K # ss"
  by (simp add: elem_bytes_def write_element_def writer_putc_def writer_putchar_def
      writer_puts_def)

lemma elem_bytes_Blob:
  "KIND_BLOB K \<noteq> 0 \<Longrightarrow> elem_bytes K P (Blob s) = KIND_BLOB K # write_str_loop 1 0 s []"
  using write_str_append[of "[]" s "KIND_BLOB K"]
  by (simp add: elem_bytes_def write_element_def)

lemma elem_bytes_Text:
  "KIND_TEXT K \<noteq> 0 \<Longrightarrow> PyUnicode_EncodeUTF8 P u = Some utf8 \<Longrightarrow>
   elem_bytes K P (Text u) = KIND_TEXT K # write_str_loop 1 0 utf8 []"
  using write_str_append[of "[]" utf8 "KIND_TEXT K"]
  by (simp add: elem_bytes_def write_element_def)

lemma elem_bytes_Integer_pos:
  "KIND_INTEGER K \<noteq> 0 \<Longrightarrow> 0 \<le> i \<Longrightarrow> i < 2 ^ 63 \<Longrightarrow>
   elem_bytes K P (Integer i) = KIND_INTEGER K # write_int [] (word_of_int i) 0 0"
  using write_int_append[of "[]" "word_of_int i" "KIND_INTEGER K" 0]
  by (simp add: elem_bytes_def write_element_def Let_def)

lemma elem_bytes_Integer_neg:
  "KIND_NEG_INTEGER K \<noteq> 0 \<Longrightarrow> i < 0 \<Longrightarrow> - (2 ^ 63) \<le> i \<Longrightarrow>
   elem_bytes K P (Integer i) = KIND_NEG_INTEGER K # write_int [] (- word_of_int i) 0 0xff"
  using write_int_append[of "[]" "- word_of_int i" "KIND_NEG_INTEGER K" "0xff"]
  by (simp add: elem_bytes_def write_element_def Let_def)


lemma read_element_kind:
  assumes "kinds_ok K"
  shows "read_element K P (KIND_NULL K # rdr) = Inr (Null, rdr)"
    and "read_element K P (KIND_INTEGER K # rdr) = read_int rdr False 0"
    and "read_element K P (KIND_NEG_INTEGER K # rdr) = read_int rdr True 0xff"
    and "read_element K P (KIND_BOOL K # rdr) =
           and_then (read_plain_int rdr 0) (\<lambda>(u64, rdr). Inr (Bool (u64 \<noteq> 0), rdr))"
    and "read_element K P (KIND_BLOB K # rdr) = (case read_str rdr of (s, rdr) \<Rightarrow> Inr (Blob s, rdr))"
    and "read_element K P (KIND_TEXT K # rdr) =
           (case read_str rdr of (tmp, rdr) \<Rightarrow>
              (case PyUnicode_DecodeUTF8 P tmp of None \<Rightarrow> Inl ValueError
               | Some u \<Rightarrow> Inr (Text u, rdr)))"
    and "read_element K P (KIND_UUID K # rdr) = read_uuid rdr"
    and "read_element K P (KIND_TIME K # rdr) = read_time K P rdr False"
    and "read_element K P (KIND_NEG_TIME K # rdr) = read_time K P rdr True"
  using assms
  by (auto simp: read_element_def reader_getchar_def and_then_def kinds_ok_def kind_list_def)

lemma read_element_write_element:
  assumes "kinds_ok K" "utf8_ok P" "encodable P e" "rest = [] \<or> hd rest < 0x80"
  shows "read_element K P (elem_bytes K P e @ rest) = Inr (e, rest)"
proof -
  from assms(1) have k: "distinct (kind_list K)" "list_all (\<lambda>k. k \<noteq> 0 \<and> k < 0x80) (kind_list K)"
    by (simp_all add: kinds_ok_def)
  show ?thesis
  proof (cases e)
    case Null
    then show ?thesis
      by (simp add: elem_bytes_Null read_element_kind[OF assms(1)])
  next
    case (Integer i)
    with assms(3) have r: "- (2 ^ 63) \<le> i" "i < 2 ^ 63" by (simp_all add: encodable_def)
    show ?thesis
    proof (cases "i < 0")
      case True
      have "elem_bytes K P e = KIND_NEG_INTEGER K # write_int [] (- word_of_int i) 0 0xff"
        using k r True Integer by (simp add: elem_bytes_Integer_neg kind_list_def)
      then show ?thesis
        using k Integer uint_neg_i64[OF True r(1)]
          read_plain_int_write_int[of "- word_of_int i" "0xff" rest]
        by (simp add: read_element_kind[OF assms(1)] and_then_def read_int_def)
    next
      case False
      then have p: "0 \<le> i" by simp
      have "elem_bytes K P e = KIND_INTEGER K # write_int [] (word_of_int i) 0 0"
        using k r p Integer by (simp add: elem_bytes_Integer_pos kind_list_def)
      then show ?thesis
        using k Integer uint_nonneg_i64[OF p r(2)]
          read_plain_int_write_int[of "word_of_int i" 0 rest]
        by (simp add: read_element_kind[OF assms(1)] and_then_def read_int_def)
    qed
  next
    case (Bool b)
    then show ?thesis
      using k
      by (simp add: elem_bytes_Bool read_element_kind[OF assms(1)] and_then_def
          read_plain_int_def reader_getc_def)
  next
    case (Blob s)
    then show ?thesis
      using k read_str_write_str[OF assms(4), of s]
      by (simp add: elem_bytes_Blob read_element_kind[OF assms(1)] kind_list_def)
  next
    case (Text u)
    with assms(3) obtain utf8 where u: "PyUnicode_EncodeUTF8 P u = Some utf8"
      by (auto simp: encodable_def)
    with assms(2) have d: "PyUnicode_DecodeUTF8 P utf8 = Some u" by (simp add: utf8_ok_def)
    from Text show ?thesis
      using k u d read_str_write_str[OF assms(4), of utf8]
      by (simp add: elem_bytes_Text read_element_kind[OF assms(1)] kind_list_def)
  next
    case (UUID ss)
    with assms(3) have "length ss = 16" by (simp add: encodable_def)
    with UUID show ?thesis
      using k
      by (simp add: elem_bytes_UUID read_element_kind[OF assms(1)]
          read_uuid_def reader_ensure_def)
  next
    case (DateTime dt)
    with assms(3) show ?thesis by (simp add: encodable_def)
  next
    case Unsupported
    with assms(3) show ?thesis by (simp add: encodable_def)
  qed
qed

lemma encodable_iff_write:
  "encodable P e \<longleftrightarrow>
     (\<exists>bs. write_element K P [] e = Inr bs)
     \<and> (case e of UUID ss \<Rightarrow> length ss = 16 | DateTime dt \<Rightarrow> False | _ \<Rightarrow> True)"
  by (cases e) (auto simp: encodable_def write_element_def Let_def split: option.splits)

text \<open>
  C2. For every encodable element that is no timestamp, \<^verbatim>\<open>write_element\<close> succeeds and
  \<^verbatim>\<open>read_element\<close>, applied to the bytes written, returns the element and has read
  every byte.
\<close>

theorem element_round_trip:
  assumes "kinds_ok K" and "utf8_ok P" and "encodable P e"
  shows "\<exists>bs. write_element K P [] e = Inr bs \<and> read_element K P bs = Inr (e, [])"
  using read_element_write_element [OF assms, of "[]"] encodable_write_Nil [OF assms(3), of K]
  by simp

theorem element_round_trip_witness:
  "kinds_ok spec_kinds \<and> utf8_ok sample_host \<and> encodable sample_host (Integer (- 1))
   \<and> write_element spec_kinds sample_host [] (Integer (- 1)) = Inr [20, 0xFE]
   \<and> read_element spec_kinds sample_host [20, 0xFE] = Inr (Integer (- 1), [])"
proof -
  have k: "kinds_ok spec_kinds" by code_simp
  have u: "utf8_ok sample_host" by (simp add: utf8_ok_def sample_host_def)
  have e: "encodable sample_host (Integer (- 1) :: bytes element)" by (simp add: encodable_def)
  have w: "write_element spec_kinds sample_host [] (Integer (- 1)) = Inr [20, 0xFE]"
    by code_simp
  from element_round_trip [OF k u e] w k u e show ?thesis by simp
qed

section \<open>Timestamps: round trip\<close>
















section \<open>Batches: round trip\<close>















section \<open>Prefixes of the input\<close>

text \<open>
  C9. When the input is shorter than the prefix, or its first \<open>length p\<close> bytes differ from
  the prefix, \<^verbatim>\<open>unpack\<close>, \<^verbatim>\<open>unpacks\<close> and \<^verbatim>\<open>Key.from_raw\<close> each return \<^verbatim>\<open>None\<close>: a
  result, not an error.
\<close>

theorem prefix_mismatch_returns_None:
  assumes "length s < length p \<or> take (length p) s \<noteq> p"
  shows "py_unpack K P p s = Inr None \<and> py_unpacks K P p s = Inr None
         \<and> key_from_raw p s = None"
  using assms by (simp add: py_unpack_def py_unpacks_def key_from_raw_def prefix_mismatch_iff)

theorem prefix_mismatch_returns_None_witness:
  "py_unpack spec_kinds sample_host [1, 2] [1, 3, 21, 5] = Inr None
   \<and> py_unpacks spec_kinds sample_host [1, 2] [1, 3, 21, 5] = Inr None
   \<and> key_from_raw [1, 2] [1, 3, 21, 5] = None
   \<and> py_unpack spec_kinds sample_host [1, 2] [1] = Inr None
   \<and> py_unpacks spec_kinds sample_host [1, 2] [1] = Inr None
   \<and> key_from_raw [1, 2] [1] = None"
  using prefix_mismatch_returns_None [of "[1, 3, 21, 5]" "[1, 2]" spec_kinds sample_host]
    prefix_mismatch_returns_None [of "[1]" "[1, 2]" spec_kinds sample_host]
  by simp

text \<open>
  C10. When the input is the prefix and nothing more, \<^verbatim>\<open>unpack\<close> returns the empty tuple
  and \<^verbatim>\<open>unpacks\<close> the empty list: a match (\<open>Some\<close>), neither \<^verbatim>\<open>None\<close> nor an error.
\<close>

theorem unpack_prefix_only:
  "py_unpack K P p p = Inr (Some []) \<and> py_unpacks K P p p = Inr (Some [])"
  by (simp add: py_unpack_def py_unpacks_def prefix_mismatch_iff unpacks_loop.simps)

theorem unpack_prefix_only_witness:
  "py_unpack spec_kinds sample_host [1, 2] [1, 2] = Inr (Some [])
   \<and> py_unpacks spec_kinds sample_host [1, 2] [1, 2] = Inr (Some [])"
  using unpack_prefix_only [of spec_kinds sample_host "[1, 2]"] by simp

section \<open>Concrete encodings\<close>

text \<open>
  C8, as the code has it. Packing the one-element tuple of the string "a" (UTF-8: the byte
  0x61) with an empty prefix gives three bytes: the TEXT kind byte, then 0xB0, then 0xC0.
\<close>

theorem pack_text_a:
  assumes "KIND_TEXT K \<noteq> 0" and "PyUnicode_EncodeUTF8 P u = Some [0x61]"
  shows "py_packs K P [] (PyTuple [Text u]) = Inr [KIND_TEXT K, 0xB0, 0xC0]"
  using assms
  by (simp add: py_packs_def write_item_def write_element_def write_str_def
      write_str_loop.simps writer_puts_def writer_putchar_def)

theorem pack_text_a_witness:
  "KIND_TEXT spec_kinds \<noteq> 0 \<and> PyUnicode_EncodeUTF8 sample_host [0x61] = Some [0x61]
   \<and> py_packs spec_kinds sample_host [] (PyTuple [Text [0x61]])
       = Inr [KIND_TEXT spec_kinds, 0xB0, 0xC0]"
proof -
  have k: "KIND_TEXT spec_kinds \<noteq> 0" by (simp add: spec_kinds_def)
  have e: "PyUnicode_EncodeUTF8 sample_host [0x61] = Some [0x61]" by (simp add: sample_host_def)
  from pack_text_a [OF k e] k e show ?thesis by simp
qed

text \<open>C8 as the spec words it (TEXT, 0xC2, 0xB0) is not what the code writes.\<close>

theorem pack_text_a_counterexample:
  "py_packs spec_kinds sample_host [] (PyTuple [Text [0x61]])
     \<noteq> Inr [KIND_TEXT spec_kinds, 0xC2, 0xB0]"
  by code_simp

section \<open>Skipping, indexing and comparing against a tuple\<close>

text \<open>
  C5 at the Key of the tuple \<open>(True,)\<close>: \<^verbatim>\<open>skip_element\<close> leaves the payload byte of a
  boolean unread, \<^verbatim>\<open>key_length\<close> takes it for a kind byte and fails, while iterating the
  Key yields its one element.
\<close>

theorem key_length_bool_fails:
  "key_new spec_kinds sample_host [Bool True] = Inr [30, 1]
   \<and> key_length spec_kinds [30, 1] = Inl ValueError
   \<and> key_elements spec_kinds sample_host (key_iter [30, 1]) [] = Inr [Bool True]"
  by code_simp

lemma PySequence_GetItem_negative:
  "key_length K self = Inr n \<Longrightarrow> i < 0 \<Longrightarrow>
   PySequence_GetItem K P self i = key_item K P self (i + int n)"
  by (simp add: PySequence_GetItem_def)

text \<open>
  C6 at the Key of the tuple \<open>(True,)\<close> and the index -1, through the call of
  \<^verbatim>\<open>PySequence_GetItem\<close> that \<^verbatim>\<open>k[-1]\<close> makes: the length is asked for first, and
  \<^verbatim>\<open>key_length\<close> fails on the boolean, because \<^verbatim>\<open>skip_element\<close> leaves its
  payload byte unread; so \<^verbatim>\<open>k[-1]\<close> raises ValueError where \<^verbatim>\<open>k[0]\<close> returns the
  element. On the Key of \<open>(1, 2, 3)\<close>, with no boolean, \<^verbatim>\<open>k[-1]\<close> is the last element
  and \<^verbatim>\<open>k[-4]\<close> raises IndexError.
\<close>

theorem key_index_negative_bool_fails:
  "key_new spec_kinds sample_host [Bool True] = Inr [30, 1]
   \<and> PySequence_GetItem spec_kinds sample_host [30, 1] (- 1) = Inl ValueError
   \<and> PySequence_GetItem spec_kinds sample_host [30, 1] 0 = Inr (Bool True)
   \<and> key_new spec_kinds sample_host [Integer 1, Integer 2, Integer 3] = Inr [21, 1, 21, 2, 21, 3]
   \<and> PySequence_GetItem spec_kinds sample_host [21, 1, 21, 2, 21, 3] (- 1) = Inr (Integer 3)
   \<and> PySequence_GetItem spec_kinds sample_host [21, 1, 21, 2, 21, 3] (- 4) = Inl IndexError"
  by code_simp

text \<open>
  C7 at the Key of \<open>("",)\<close> against the tuple \<open>("a",)\<close>: the Key's one byte is a proper
  prefix of the tuple's encoding, the loop ends with no byte left on the Key's side and
  no item left on the tuple's, and the comparison says "equal", not "less".
\<close>

theorem key_tuple_compare_prefix_equal:
  "key_new spec_kinds sample_host [Blob []] = Inr [40]
   \<and> key_new spec_kinds sample_host [Blob [0x61]] = Inr [40, 0xB0, 0xC0]
   \<and> key_richcompare spec_kinds sample_host [40] (PyTuple [Blob [0x61]]) Py_EQ = Inr True
   \<and> key_richcompare spec_kinds sample_host [40] (PyTuple [Blob [0x61]]) Py_LT = Inr False"
  by code_simp

end
